theory Spec2Isabelle
  imports Main
begin

section \<open>Values, errors and promises\<close>

text \<open>
  The stored values are of TypeScript type \<open>unknown\<close>: a primitive value (\<open>undefined\<close>,
  \<open>null\<close>, a boolean, a string, a number) or an object. An object is known by its
  identity:
  \<^item> \<open>StoreRef\<close> is the object handed to \<open>getPool\<close>, the shared backing store;
  \<^item> \<open>ObjectPrototype\<close> is \<open>Object.prototype\<close>;
  \<^item> \<open>Builtin name\<close> is the function object that is the value of
    \<open>Object.prototype[name]\<close>;
  \<^item> \<open>Heir n\<close> is an object of the caller that has the store on its prototype chain,
    such as \<open>Object.create(store)\<close>;
  \<^item> \<open>Other n\<close> is any other object of the caller.

  Of the last three kinds the model knows the identity only, not the properties.

  The \<open>#temp\<close> object of a transaction has no reference: it is private to the
  transaction, and a read hands out a value of a property or the prototype of \<open>#temp\<close>,
  never \<open>#temp\<close> itself.
\<close>

datatype objref = StoreRef | ObjectPrototype | Builtin string | Heir nat | Other nat

datatype jsval = Undefined | Null | JBool bool | JStr string | JNum int | JObj objref

text \<open>
  The own properties of the store and of a \<open>#temp\<close> object: writable data properties,
  a partial map from property names to values. The prototype link of the object is kept
  beside the map.
\<close>

type_synonym PlainObject = "string \<rightharpoonup> jsval"

text \<open>
  Every \<open>throw new Error(...)\<close> of the source is one constructor. \<open>CyclicProto\<close> is the
  \<open>TypeError\<close> that the setter of \<open>__proto__\<close> throws when the new prototype chain would
  run into the object itself. \<open>OutOfModel\<close> is no error of the source: it is the result of
  a property access whose outcome depends on the inside of an object that the model
  knows by its identity only (\<open>Builtin\<close>, \<open>Heir\<close>, \<open>Other\<close>); nothing is stated about the
  source where it appears.
\<close>

datatype error =
    PoolClosed              \<comment> \<open>'Pool is closed'\<close>
  | ConnectionClosed        \<comment> \<open>'Connection is closed'\<close>
  | NotInPool               \<comment> \<open>'Connection is not in this pool'\<close>
  | TransactionComplete     \<comment> \<open>'Transaction is already complete'\<close>
  | TransactionReadOnly     \<comment> \<open>'Transaction is read only'\<close>
  | ContextCanceled         \<comment> \<open>'Context was canceled before a connection was available'\<close>
  | NoStorageApi            \<comment> \<open>'No storage API present on context'\<close>
  | MissingCallback         \<comment> \<open>'Missing callback function'\<close>
  | UserError string        \<comment> \<open>an error thrown by caller-supplied code\<close>
  | CyclicProto             \<comment> \<open>TypeError: 'Cyclic __proto__ value'\<close>
  | OutOfModel

text \<open>The state of a JavaScript promise. A settled promise never changes again.\<close>

datatype 'a pstate = Pending | Fulfilled 'a | Rejected error

definition promise_resolve :: "'a \<Rightarrow> 'a pstate \<Rightarrow> 'a pstate" where
  "promise_resolve v s = (case s of Pending \<Rightarrow> Fulfilled v | _ \<Rightarrow> s)"

definition promise_reject :: "error \<Rightarrow> 'a pstate \<Rightarrow> 'a pstate" where
  "promise_reject e s = (case s of Pending \<Rightarrow> Rejected e | _ \<Rightarrow> s)"

text \<open>
  A \<open>Promise<void>\<close> handed back by \<open>close()\<close>: either \<open>Promise.resolve()\<close>, or the
  promise of a close-barrier \<open>PromiseHandle<void>\<close>, named by its index in the heap of
  barriers.
\<close>

datatype vpromise = ResolvedNow | Barrier nat

text \<open>
  A \<open>Promise<KeyValConn>\<close> handed back by \<open>conn()\<close>: either \<open>Promise.resolve(conn)\<close>,
  or the promise of a queued request.
\<close>

datatype cpromise = ConnNow nat | ConnLater nat

section \<open>The ambient context\<close>

text \<open>
  Modelled from the spec: the context carrier of package \<open>@sabl/context\<close> is an
  external collaborator. A context is an immutable lookup structure that may carry a
  cancellation signal (\<open>ctx.canceler\<close>, named by an index) and the storage API bound by
  \<open>withStorageApi\<close>; deriving a context returns a new structure.
\<close>

record 'api IContext =
  canceler :: "nat option"
  storageApi :: "'api option"

definition withStorageApi :: "'api IContext \<Rightarrow> 'api \<Rightarrow> 'api IContext" where
  "withStorageApi ctx api = ctx\<lparr>storageApi := Some api\<rparr>"

definition getStorageApi :: "'api IContext \<Rightarrow> 'api option" where
  "getStorageApi ctx = storageApi ctx"

section \<open>The in-memory key-value engine\<close>

subsection \<open>State\<close>

text \<open>Class \<open>MemKvConn\<close>: the private fields that change.\<close>

record conn =
  keepOpen :: bool
  closed :: bool
  waitClose :: "nat option"
  txn :: "nat option"

text \<open>
  A queued connection request. \<open>r_clr = None\<close> is a plain \<open>PromiseHandle<MemKvConn>\<close>;
  \<open>r_clr = Some clr\<close> is the handle built by \<open>cancelableConnRequest(clr)\<close>, whose closure
  holds the flags \<open>timedOut\<close> and \<open>resolved\<close>.
\<close>

record request =
  r_promise :: "nat pstate"
  r_clr :: "nat option"
  timedOut :: bool
  resolved :: bool

text \<open>
  Class \<open>MemKvPool\<close> with the objects it owns. Connections, requests and close-barriers
  are objects with identity: they live in heaps indexed by natural numbers, and the
  lists of the pool hold indices. A canceler is the list of its subscribed listeners;
  in this engine every listener is the \<open>onCancel\<close> closure of a request.
\<close>

record kvpool =
  maxCnt :: int
  reqQueue :: "nat list"
  p_closed :: bool
  active :: "nat list"
  p_pool :: "nat list"
  conns :: "nat \<Rightarrow> conn"
  reqs :: "nat \<Rightarrow> request"
  barriers :: "nat \<Rightarrow> unit pstate"
  cancelers :: "nat \<Rightarrow> nat list"
  next_conn :: nat
  next_req :: nat
  next_barrier :: nat

text \<open>Interface \<open>MemOp\<close> and class \<open>MemKvTxn\<close>.\<close>

datatype MemOp = OpSet string jsval | OpDelete string

text \<open>
  \<open>temp\<close> holds the own properties of the object made by \<open>Object.create(store)\<close> and
  \<open>temp_proto\<close> its prototype link (\<open>None\<close> is \<open>null\<close>);
  \<open>onComplete\<close> is the connection whose \<open>#txnDone\<close> the callback invokes.
\<close>

record kvtxn =
  onComplete :: nat
  temp :: PlainObject
  temp_proto :: "objref option"
  ops :: "MemOp list"
  t_readonly :: bool
  t_done :: bool

record TxnOptions =
  isolationLevel :: "nat option"
  readOnly :: "bool option"

text \<open>
  The whole engine: the shared backing store (its own properties and its prototype
  link), the transactions, and the pool.
\<close>

record world =
  store :: PlainObject
  store_proto :: "objref option"
  txns :: "nat \<Rightarrow> kvtxn"
  next_txn :: nat
  pool :: kvpool

subsection \<open>Arrays\<close>

text \<open>\<open>Array.prototype.indexOf\<close> (\<open>None\<close> for \<open>-1\<close>) and \<open>splice(ix, 1)\<close>.\<close>

fun indexOf :: "'a list \<Rightarrow> 'a \<Rightarrow> nat option" where
  "indexOf [] x = None"
| "indexOf (y # ys) x = (if y = x then Some 0 else map_option Suc (indexOf ys x))"

definition splice1 :: "nat \<Rightarrow> 'a list \<Rightarrow> 'a list" where
  "splice1 ix xs = take ix xs @ drop (Suc ix) xs"

subsection \<open>Canceler\<close>

text \<open>
  Modelled from the spec: \<open>Canceler\<close> of \<open>@sabl/context\<close> is an external collaborator
  with \<open>onCancel(listener)\<close> to subscribe and \<open>off(listener)\<close> to unsubscribe.
\<close>

definition clr_onCancel :: "nat \<Rightarrow> nat \<Rightarrow> kvpool \<Rightarrow> kvpool" where
  "clr_onCancel clr r p = p\<lparr>cancelers := (cancelers p)(clr := cancelers p clr @ [r])\<rparr>"

definition clr_off :: "nat \<Rightarrow> nat \<Rightarrow> kvpool \<Rightarrow> kvpool" where
  "clr_off clr r p = p\<lparr>cancelers := (cancelers p)(clr := removeAll r (cancelers p clr))\<rparr>"

subsection \<open>Connection requests\<close>

definition upd_req :: "nat \<Rightarrow> (request \<Rightarrow> request) \<Rightarrow> kvpool \<Rightarrow> kvpool" where
  "upd_req r f p = p\<lparr>reqs := (reqs p)(r := f (reqs p r))\<rparr>"

definition upd_conn :: "nat \<Rightarrow> (conn \<Rightarrow> conn) \<Rightarrow> kvpool \<Rightarrow> kvpool" where
  "upd_conn c f p = p\<lparr>conns := (conns p)(c := f (conns p c))\<rparr>"

text \<open>
  \<open>cancelableConnRequest(clr)\<close>: the new handle is stored at the next free index, its
  promise pending, both flags false, and \<open>handle.onCancel\<close> subscribed to \<open>clr\<close>.
  The pool never calls \<open>reject\<close> on a handle, so the closure \<open>rej\<close> is left out.
\<close>

definition cancelableConnRequest :: "nat \<Rightarrow> kvpool \<Rightarrow> nat \<times> kvpool" where
  "cancelableConnRequest clr p =
     (let h = next_req p;
          p1 = p\<lparr>reqs := (reqs p)(h := \<lparr>r_promise = Pending, r_clr = Some clr,
                                          timedOut = False, resolved = False\<rparr>),
                 next_req := Suc h\<rparr>
      in (h, clr_onCancel clr h p1))"

text \<open>\<open>new PromiseHandle<MemKvConn>()\<close>.\<close>

definition newPromiseHandle :: "kvpool \<Rightarrow> nat \<times> kvpool" where
  "newPromiseHandle p =
     (let h = next_req p
      in (h, p\<lparr>reqs := (reqs p)(h := \<lparr>r_promise = Pending, r_clr = None,
                                       timedOut = False, resolved = False\<rparr>),
               next_req := Suc h\<rparr>))"

text \<open>
  The listener \<open>handle.onCancel\<close> of a cancelable request: unsubscribe, and unless the
  request was already resolved, mark it timed out and reject its promise.
\<close>

definition req_onCancel :: "nat \<Rightarrow> kvpool \<Rightarrow> kvpool" where
  "req_onCancel r p =
     (case r_clr (reqs p r) of
        None \<Rightarrow> p
      | Some clr \<Rightarrow>
          (let p1 = clr_off clr r p
           in if resolved (reqs p1 r) then p1
              else upd_req r (\<lambda>q. q\<lparr>timedOut := True,
                                     r_promise := promise_reject ContextCanceled (r_promise q)\<rparr>) p1))"

subsection \<open>Connections and the pool\<close>

definition reset :: "nat \<Rightarrow> bool \<Rightarrow> kvpool \<Rightarrow> kvpool" where
  "reset c k p = upd_conn c (\<lambda>x. x\<lparr>closed := False, keepOpen := k\<rparr>) p"

text \<open>
  \<open>MemKvConn.close\<close>, \<open>MemKvPool.return\<close> and the \<open>resolve\<close> of a request handle call
  one another: a returned connection is given to the first queued request, and a
  request that has timed out closes the connection again, which returns it once more.
  Every round takes one request off the queue.
\<close>

function MemKvConn_close :: "nat \<Rightarrow> kvpool \<Rightarrow> (error + vpromise) \<times> kvpool"
  and MemKvPool_return :: "nat \<Rightarrow> kvpool \<Rightarrow> (error + unit) \<times> kvpool"
  and handle_resolve :: "nat \<Rightarrow> nat \<Rightarrow> kvpool \<Rightarrow> (error + unit) \<times> kvpool"
where
  "MemKvConn_close c p =
     (if closed (conns p c) then (Inr ResolvedNow, p)
      else
        (let p1 = upd_conn c (\<lambda>x. x\<lparr>closed := True\<rparr>) p
         in if txn (conns p1 c) \<noteq> None then
              (case waitClose (conns p1 c) of
                 Some b \<Rightarrow> (Inr (Barrier b), p1)
               | None \<Rightarrow>
                   (let b = next_barrier p1
                    in (Inr (Barrier b),
                        upd_conn c (\<lambda>x. x\<lparr>waitClose := Some b\<rparr>)
                          (p1\<lparr>barriers := (barriers p1)(b := Pending),
                              next_barrier := Suc b\<rparr>))))
            else
              (case MemKvPool_return c p1 of
                 (Inl e, p2) \<Rightarrow> (Inl e, p2)
               | (Inr u, p2) \<Rightarrow> (Inr ResolvedNow, p2))))"
| "MemKvPool_return c p =
     (case indexOf (active p) c of
        None \<Rightarrow> (Inl NotInPool, p)
      | Some ix \<Rightarrow>
          (case reqQueue p of
             r # rest \<Rightarrow> handle_resolve r c (reset c True (p\<lparr>reqQueue := rest\<rparr>))
           | [] \<Rightarrow> (Inr (), p\<lparr>active := splice1 ix (active p), p_pool := p_pool p @ [c]\<rparr>)))"
| "handle_resolve r c p =
     (case r_clr (reqs p r) of
        None \<Rightarrow> (Inr (), upd_req r (\<lambda>q. q\<lparr>r_promise := promise_resolve c (r_promise q)\<rparr>) p)
      | Some clr \<Rightarrow>
          (if timedOut (reqs p r) then
             (case MemKvConn_close c p of
                (Inl e, p1) \<Rightarrow> (Inl e, p1)
              | (Inr u, p1) \<Rightarrow> (Inr (), p1))
           else
             (Inr (), upd_req r (\<lambda>q. q\<lparr>r_promise := promise_resolve c (r_promise q)\<rparr>)
                        (clr_off clr r (upd_req r (\<lambda>q. q\<lparr>resolved := True\<rparr>) p)))))"
  by pat_completeness auto
termination
  by (relation "measure (\<lambda>x. case x of
          Inl (c, p) \<Rightarrow> 3 * length (reqQueue p) + 1
        | Inr (Inl (c, p)) \<Rightarrow> 3 * length (reqQueue p)
        | Inr (Inr (r, c, p)) \<Rightarrow> 3 * length (reqQueue p) + 2)")
     (auto simp: upd_conn_def reset_def)

declare MemKvConn_close.simps [simp del] MemKvPool_return.simps [simp del]
  handle_resolve.simps [simp del]

text \<open>
  \<open>MemKvConn.#txnDone\<close>, the completion callback of a transaction. It returns
  \<open>null\<close> (\<open>None\<close>) or the promise of \<open>close()\<close>. When \<open>return\<close> throws, the barrier
  is not resolved.
\<close>

definition MemKvConn_txnDone :: "nat \<Rightarrow> kvpool \<Rightarrow> (error + vpromise option) \<times> kvpool" where
  "MemKvConn_txnDone c p =
     (let p1 = upd_conn c (\<lambda>x. x\<lparr>txn := None\<rparr>) p
      in case waitClose (conns p1 c) of
           Some wc \<Rightarrow>
             (let p2 = upd_conn c (\<lambda>x. x\<lparr>waitClose := None\<rparr>) p1
              in case MemKvPool_return c p2 of
                   (Inl e, p3) \<Rightarrow> (Inl e, p3)
                 | (Inr u, p3) \<Rightarrow>
                     (Inr None, p3\<lparr>barriers := (barriers p3)(wc := promise_resolve () (barriers p3 wc))\<rparr>))
         | None \<Rightarrow>
             if \<not> keepOpen (conns p1 c) then
               (case MemKvConn_close c p1 of
                  (Inl e, p2) \<Rightarrow> (Inl e, p2)
                | (Inr pr, p2) \<Rightarrow> (Inr (Some pr), p2))
             else (Inr None, p1))"

text \<open>\<open>MemKvPool.conn\<close>. \<open>shift\<close> takes the first idle connection, \<open>push\<close> appends.\<close>

definition new_conn :: conn where
  "new_conn = \<lparr>keepOpen = False, closed = False, waitClose = None, txn = None\<rparr>"

definition MemKvPool_conn :: "'api IContext \<Rightarrow> kvpool \<Rightarrow> (error + cpromise) \<times> kvpool" where
  "MemKvPool_conn ctx p =
     (if p_closed p then (Inl PoolClosed, p)
      else case p_pool p of
        c # rest \<Rightarrow>
          (let p1 = reset c True (p\<lparr>p_pool := rest\<rparr>)
           in (Inr (ConnNow c), p1\<lparr>active := active p1 @ [c]\<rparr>))
      | [] \<Rightarrow>
          if int (length (active p)) < maxCnt p then
            (let c = next_conn p;
                 p1 = reset c True (p\<lparr>conns := (conns p)(c := new_conn), next_conn := Suc c\<rparr>)
             in (Inr (ConnNow c), p1\<lparr>active := active p1 @ [c]\<rparr>))
          else
            (case canceler ctx of
               Some clr \<Rightarrow>
                 (case cancelableConnRequest clr p of
                    (h, p1) \<Rightarrow> (Inr (ConnLater h), p1\<lparr>reqQueue := reqQueue p1 @ [h]\<rparr>))
             | None \<Rightarrow>
                 (case newPromiseHandle p of
                    (h, p1) \<Rightarrow> (Inr (ConnLater h), p1\<lparr>reqQueue := reqQueue p1 @ [h]\<rparr>))))"

text \<open>
  The loop \<open>for (const c of this.#active) promises.push(c.close())\<close> of
  \<open>MemKvPool.close\<close>. The array iterator keeps an index and reads the array anew at
  every step, while \<open>c.close()\<close> may splice the array through \<open>return\<close>.
\<close>

function close_loop :: "nat \<Rightarrow> vpromise list \<Rightarrow> kvpool \<Rightarrow> (error + vpromise list) \<times> kvpool" where
  "close_loop i promises p =
     (if i < length (active p) then
        (case MemKvConn_close (active p ! i) p of
           (Inl e, p1) \<Rightarrow> (Inl e, p1)
         | (Inr pr, p1) \<Rightarrow> close_loop (Suc i) (promises @ [pr]) p1)
      else (Inr promises, p))"
  by pat_completeness auto

lemma splice1_length: "ix < length xs \<Longrightarrow> length (splice1 ix xs) < length xs"
  by (simp add: splice1_def)

lemma indexOf_less: "indexOf xs x = Some ix \<Longrightarrow> ix < length xs"
  by (induction xs arbitrary: ix) (auto split: if_splits)

lemma close_return_resolve_active_length:
  "length (active (snd (MemKvConn_close c p))) \<le> length (active p)"
  "length (active (snd (MemKvPool_return c p))) \<le> length (active p)"
  "length (active (snd (handle_resolve r c p))) \<le> length (active p)"
proof (induction c p and c p and r c p rule: MemKvConn_close_MemKvPool_return_handle_resolve.induct)
  case (1 c p)
  then show ?case
    by (subst MemKvConn_close.simps)
       (auto simp: upd_conn_def Let_def split: option.splits prod.splits sum.splits)
next
  case (2 c p)
  show ?case
  proof (cases "indexOf (active p) c")
    case None
    then show ?thesis by (simp add: MemKvPool_return.simps)
  next
    case (Some ix)
    show ?thesis
    proof (cases "reqQueue p")
      case Nil
      with Some show ?thesis
        using splice1_length [OF indexOf_less [OF Some]]
        by (simp add: MemKvPool_return.simps)
    next
      case (Cons r rest)
      with Some "2" [OF Some Cons] show ?thesis
        by (simp add: MemKvPool_return.simps reset_def upd_conn_def)
    qed
  qed
next
  case (3 r c p)
  then show ?case
    by (subst handle_resolve.simps)
       (auto simp: upd_req_def clr_off_def split: option.splits prod.splits sum.splits)
qed

termination close_loop
proof (relation "measure (\<lambda>(i, promises, p). length (active p) - i)")
  show "wf (measure (\<lambda>(i, promises, p). length (active p) - i))"
    by simp
next
  fix i :: nat and promises :: "vpromise list" and p x p1 pr
  assume lt: "i < length (active p)"
    and x: "(x, p1) = MemKvConn_close (active p ! i) p"
    and "x = Inr pr"
  have "length (active (snd (MemKvConn_close (active p ! i) p))) \<le> length (active p)"
    by (rule close_return_resolve_active_length(1))
  then have "length (active p1) \<le> length (active p)"
    using x [symmetric] by simp
  with lt show "((Suc i, promises @ [pr], p1), i, promises, p)
      \<in> measure (\<lambda>(i, promises, p). length (active p) - i)"
    by simp
qed

declare close_loop.simps [simp del]

text \<open>
  \<open>MemKvPool.close\<close>. The result is the list of promises that \<open>Promise.all\<close> awaits
  (empty when the pool was already closed).
\<close>

definition MemKvPool_close :: "kvpool \<Rightarrow> (error + vpromise list) \<times> kvpool" where
  "MemKvPool_close p =
     (if p_closed p then (Inr [], p)
      else close_loop 0 [] (p\<lparr>p_closed := True, p_pool := []\<rparr>))"

subsection \<open>Objects and property access\<close>

text \<open>
  A property found on the prototype chain of an object is a data property with its
  value, or the accessor \<open>__proto__\<close> of \<open>Object.prototype\<close>, whose getter returns the
  prototype of the object the access started from and whose setter replaces it.
  A lookup ends with the property found, with no property at the end of the chain, or
  inside an object that the model knows by its identity only.
\<close>

datatype property = Data jsval | ProtoAccessor

datatype lookup = Found property | NotFound | Unmodelled

text \<open>
  \<open>Object.prototype\<close>: the accessor \<open>__proto__\<close> and eleven methods, each a function
  object. Its own prototype is \<open>null\<close>.
\<close>

definition ObjectPrototype_methods :: "string list" where
  "ObjectPrototype_methods =
     [''constructor'', ''hasOwnProperty'', ''isPrototypeOf'', ''propertyIsEnumerable'',
      ''toLocaleString'', ''toString'', ''valueOf'', ''__defineGetter__'',
      ''__defineSetter__'', ''__lookupGetter__'', ''__lookupSetter__'']"

definition ObjectPrototype_prop :: "string \<Rightarrow> property option" where
  "ObjectPrototype_prop key =
     (if key = ''__proto__'' then Some ProtoAccessor
      else if key \<in> set ObjectPrototype_methods then Some (Data (JObj (Builtin key)))
      else None)"

definition find_in_ObjectPrototype :: "string \<Rightarrow> lookup" where
  "find_in_ObjectPrototype key =
     (case ObjectPrototype_prop key of Some p \<Rightarrow> Found p | None \<Rightarrow> NotFound)"

text \<open>
  The lookup of \<open>key\<close> that starts at the store: its own properties \<open>st\<close>, then the
  chain behind its prototype link \<open>sp\<close>. A link from the store to the store does not
  arise, since the setter of \<open>__proto__\<close> refuses it.
\<close>

definition find_in_store :: "PlainObject \<Rightarrow> objref option \<Rightarrow> string \<Rightarrow> lookup" where
  "find_in_store st sp key =
     (case st key of
        Some v \<Rightarrow> Found (Data v)
      | None \<Rightarrow>
          (case sp of
             None \<Rightarrow> NotFound
           | Some ObjectPrototype \<Rightarrow> find_in_ObjectPrototype key
           | Some _ \<Rightarrow> Unmodelled))"

text \<open>
  The lookup of \<open>key\<close> that starts at a \<open>#temp\<close> object with own properties \<open>tmp\<close> and
  prototype link \<open>tp\<close>: an own property wins, otherwise the lookup follows the link,
  to the store as it is at that moment unless the link has been replaced.
\<close>

definition find_in_temp ::
  "PlainObject \<Rightarrow> objref option \<Rightarrow> PlainObject \<Rightarrow> objref option \<Rightarrow> string \<Rightarrow> lookup" where
  "find_in_temp tmp tp st sp key =
     (case tmp key of
        Some v \<Rightarrow> Found (Data v)
      | None \<Rightarrow>
          (case tp of
             None \<Rightarrow> NotFound
           | Some StoreRef \<Rightarrow> find_in_store st sp key
           | Some ObjectPrototype \<Rightarrow> find_in_ObjectPrototype key
           | Some _ \<Rightarrow> Unmodelled))"

text \<open>
  The value of \<open>obj[key]\<close> from what the lookup found; \<open>link\<close> is the prototype link of
  \<open>obj\<close>, which the getter of \<open>__proto__\<close> returns. A missing property reads as
  \<open>undefined\<close>.
\<close>

definition proto_value :: "objref option \<Rightarrow> jsval" where
  "proto_value link = (case link of None \<Rightarrow> Null | Some r \<Rightarrow> JObj r)"

definition read_found :: "lookup \<Rightarrow> objref option \<Rightarrow> error + jsval" where
  "read_found l link =
     (case l of
        Found (Data v) \<Rightarrow> Inr v
      | Found ProtoAccessor \<Rightarrow> Inr (proto_value link)
      | NotFound \<Rightarrow> Inr Undefined
      | Unmodelled \<Rightarrow> Inl OutOfModel)"

text \<open>
  What the assignment \<open>obj[key] = val\<close> does, from what the lookup found: a data
  property on the chain, or none, gives \<open>obj\<close> an own property; the accessor
  \<open>__proto__\<close> runs its setter, which replaces the prototype of \<open>obj\<close> when \<open>val\<close> is an
  object or \<open>null\<close> and does nothing for any other value.
\<close>

datatype assignment = OwnProperty | SetPrototype "objref option" | NoEffect | Raises error

text \<open>
  Where the lookup is \<open>Unmodelled\<close> the assignment is \<open>Raises OutOfModel\<close>: the object is
  then left as it was before the assignment, and what the source has done to it is
  not described.
\<close>

definition assign :: "lookup \<Rightarrow> jsval \<Rightarrow> assignment" where
  "assign l val =
     (case l of
        Found (Data x) \<Rightarrow> OwnProperty
      | NotFound \<Rightarrow> OwnProperty
      | Unmodelled \<Rightarrow> Raises OutOfModel
      | Found ProtoAccessor \<Rightarrow>
          (case val of
             Null \<Rightarrow> SetPrototype None
           | JObj r \<Rightarrow> SetPrototype (Some r)
           | _ \<Rightarrow> NoEffect))"

subsection \<open>Operations of a connection on the store\<close>

text \<open>
  Reading \<open>this.#store[key]\<close>. The methods \<open>get\<close> hand the value read to
  \<open>Promise.resolve\<close>; the result \<open>Inr v\<close> of the model stands for that promise.
\<close>

definition read_prop :: "PlainObject \<Rightarrow> objref option \<Rightarrow> string \<Rightarrow> error + jsval" where
  "read_prop st sp key = read_found (find_in_store st sp key) sp"

text \<open>
  The assignment \<open>this.#store[key] = val\<close>. The setter of \<open>__proto__\<close> leaves the link as
  it is when the new prototype is the old one, and throws when the chain of the new
  prototype leads back to the store: when it is the store itself or an object that has
  the store on its chain.
\<close>

definition store_assign :: "string \<Rightarrow> jsval \<Rightarrow> world \<Rightarrow> (error + unit) \<times> world" where
  "store_assign key val w =
     (case assign (find_in_store (store w) (store_proto w) key) val of
        OwnProperty \<Rightarrow> (Inr (), w\<lparr>store := (store w)(key \<mapsto> val)\<rparr>)
      | NoEffect \<Rightarrow> (Inr (), w)
      | Raises e \<Rightarrow> (Inl e, w)
      | SetPrototype link \<Rightarrow>
          (if link = store_proto w then (Inr (), w)
           else
             (case link of
                Some StoreRef \<Rightarrow> (Inl CyclicProto, w)
              | Some (Heir n) \<Rightarrow> (Inl CyclicProto, w)
              | _ \<Rightarrow> (Inr (), w\<lparr>store_proto := link\<rparr>))))"

definition MemKvConn_set :: "nat \<Rightarrow> string \<Rightarrow> jsval \<Rightarrow> world \<Rightarrow> (error + unit) \<times> world" where
  "MemKvConn_set c key val w =
     (if closed (conns (pool w) c) then (Inl ConnectionClosed, w)
      else store_assign key val w)"

definition MemKvConn_get :: "nat \<Rightarrow> string \<Rightarrow> world \<Rightarrow> (error + jsval) \<times> world" where
  "MemKvConn_get c key w =
     (if closed (conns (pool w) c) then (Inl ConnectionClosed, w)
      else (read_prop (store w) (store_proto w) key, w))"

text \<open>\<open>delete this.#store[key]\<close> removes an own property and nothing else.\<close>

definition MemKvConn_delete :: "nat \<Rightarrow> string \<Rightarrow> world \<Rightarrow> (error + unit) \<times> world" where
  "MemKvConn_delete c key w =
     (if closed (conns (pool w) c) then (Inl ConnectionClosed, w)
      else (Inr (), w\<lparr>store := (store w)(key := None)\<rparr>))"

text \<open>
  \<open>MemKvConn.beginTxn\<close> builds a \<open>MemKvTxn\<close> on the shared store; \<open>Object.create(store)\<close>
  gives \<open>#temp\<close> no own property and the store as its prototype. Neither the context
  nor the field \<open>#txn\<close> of the connection is touched.
\<close>

definition MemKvConn_beginTxn ::
  "nat \<Rightarrow> 'api IContext \<Rightarrow> TxnOptions option \<Rightarrow> world \<Rightarrow> (error + nat) \<times> world" where
  "MemKvConn_beginTxn c ctx opts w =
     (if closed (conns (pool w) c) then (Inl ConnectionClosed, w)
      else
        (let t = next_txn w
         in (Inr t,
             w\<lparr>txns := (txns w)(t :=
                  \<lparr>onComplete = c, temp = Map.empty, temp_proto = Some StoreRef, ops = [],
                   t_readonly = (case opts of None \<Rightarrow> False | Some opt \<Rightarrow> readOnly opt = Some True),
                   t_done = False\<rparr>),
               next_txn := Suc t\<rparr>)))"


subsection \<open>Transactions\<close>

text \<open>Reading \<open>this.#temp[key]\<close>.\<close>

definition read_temp ::
  "PlainObject \<Rightarrow> objref option \<Rightarrow> PlainObject \<Rightarrow> objref option \<Rightarrow> string \<Rightarrow> error + jsval" where
  "read_temp tmp tp st sp key = read_found (find_in_temp tmp tp st sp key) tp"

definition upd_txn :: "nat \<Rightarrow> (kvtxn \<Rightarrow> kvtxn) \<Rightarrow> world \<Rightarrow> world" where
  "upd_txn t f w = w\<lparr>txns := (txns w)(t := f (txns w t))\<rparr>"

text \<open>
  The assignment \<open>this.#temp[key] = val\<close> of transaction \<open>t\<close>. No chain of prototypes
  leads to \<open>#temp\<close>, so the setter of \<open>__proto__\<close> accepts every object and \<open>null\<close>.
\<close>

definition temp_assign :: "nat \<Rightarrow> string \<Rightarrow> jsval \<Rightarrow> world \<Rightarrow> (error + unit) \<times> world" where
  "temp_assign t key val w =
     (case assign (find_in_temp (temp (txns w t)) (temp_proto (txns w t))
                     (store w) (store_proto w) key) val of
        OwnProperty \<Rightarrow> (Inr (), upd_txn t (\<lambda>x. x\<lparr>temp := (temp x)(key \<mapsto> val)\<rparr>) w)
      | SetPrototype link \<Rightarrow> (Inr (), upd_txn t (\<lambda>x. x\<lparr>temp_proto := link\<rparr>) w)
      | NoEffect \<Rightarrow> (Inr (), w)
      | Raises e \<Rightarrow> (Inl e, w))"

definition MemKvTxn_set :: "nat \<Rightarrow> string \<Rightarrow> jsval \<Rightarrow> world \<Rightarrow> (error + unit) \<times> world" where
  "MemKvTxn_set t key val w =
     (if t_done (txns w t) then (Inl TransactionComplete, w)
      else if t_readonly (txns w t) then (Inl TransactionReadOnly, w)
      else temp_assign t key val (upd_txn t (\<lambda>x. x\<lparr>ops := ops x @ [OpSet key val]\<rparr>) w))"

definition MemKvTxn_get :: "nat \<Rightarrow> string \<Rightarrow> world \<Rightarrow> (error + jsval) \<times> world" where
  "MemKvTxn_get t key w =
     (if t_done (txns w t) then (Inl TransactionComplete, w)
      else (read_temp (temp (txns w t)) (temp_proto (txns w t))
              (store w) (store_proto w) key, w))"

definition MemKvTxn_delete :: "nat \<Rightarrow> string \<Rightarrow> world \<Rightarrow> (error + unit) \<times> world" where
  "MemKvTxn_delete t key w =
     (if t_done (txns w t) then (Inl TransactionComplete, w)
      else if t_readonly (txns w t) then (Inl TransactionReadOnly, w)
      else temp_assign t key Undefined (upd_txn t (\<lambda>x. x\<lparr>ops := ops x @ [OpDelete key]\<rparr>) w))"

text \<open>\<open>MemKvTxn.#close\<close>: call \<open>onComplete\<close>, and resolve at once when it returns \<open>null\<close>.\<close>

definition MemKvTxn_close :: "nat \<Rightarrow> world \<Rightarrow> (error + vpromise) \<times> world" where
  "MemKvTxn_close t w =
     (case MemKvConn_txnDone (onComplete (txns w t)) (pool w) of
        (Inl e, p1) \<Rightarrow> (Inl e, w\<lparr>pool := p1\<rparr>)
      | (Inr None, p1) \<Rightarrow> (Inr ResolvedNow, w\<lparr>pool := p1\<rparr>)
      | (Inr (Some pr), p1) \<Rightarrow> (Inr pr, w\<lparr>pool := p1\<rparr>))"

text \<open>
  The replay loop of \<open>commit\<close>, one buffered operation after the other. An assignment
  that throws ends the loop and the call: \<open>#close\<close> is not reached.
\<close>

fun apply_op :: "MemOp \<Rightarrow> world \<Rightarrow> (error + unit) \<times> world" where
  "apply_op (OpDelete key) w = (Inr (), w\<lparr>store := (store w)(key := None)\<rparr>)"
| "apply_op (OpSet key val) w = store_assign key val w"

fun replay :: "MemOp list \<Rightarrow> world \<Rightarrow> (error + unit) \<times> world" where
  "replay [] w = (Inr (), w)"
| "replay (x # xs) w =
     (case apply_op x w of
        (Inl e, w1) \<Rightarrow> (Inl e, w1)
      | (Inr u, w1) \<Rightarrow> replay xs w1)"

definition MemKvTxn_commit :: "nat \<Rightarrow> world \<Rightarrow> (error + vpromise) \<times> world" where
  "MemKvTxn_commit t w =
     (if t_done (txns w t) then (Inl TransactionComplete, w)
      else
        (let w1 = upd_txn t (\<lambda>x. x\<lparr>t_done := True\<rparr>) w
         in (case replay (ops (txns w1 t)) w1 of
               (Inl e, w2) \<Rightarrow> (Inl e, w2)
             | (Inr u, w2) \<Rightarrow> MemKvTxn_close t w2)))"

definition MemKvTxn_rollback :: "nat \<Rightarrow> world \<Rightarrow> (error + vpromise) \<times> world" where
  "MemKvTxn_rollback t w =
     (if t_done (txns w t) then (Inl TransactionComplete, w)
      else MemKvTxn_close t (upd_txn t (\<lambda>x. x\<lparr>t_done := True\<rparr>) w))"

subsection \<open>Construction and cancellation\<close>

text \<open>
  \<open>getPool(store, maxCnt)\<close>: a pool with no connection and no request. The heaps hold
  no live object yet; their entries are overwritten when an object is created. The
  store is an object written as a literal with the own properties \<open>st\<close>, so that its
  prototype is \<open>Object.prototype\<close>.
\<close>

definition getPool :: "PlainObject \<Rightarrow> int \<Rightarrow> world" where
  "getPool st n =
     \<lparr>store = st,
      store_proto = Some ObjectPrototype,
      txns = (\<lambda>_. \<lparr>onComplete = 0, temp = Map.empty, temp_proto = None, ops = [],
                    t_readonly = False, t_done = False\<rparr>),
      next_txn = 0,
      pool = \<lparr>maxCnt = n, reqQueue = [], p_closed = False, active = [], p_pool = [],
              conns = (\<lambda>_. new_conn),
              reqs = (\<lambda>_. \<lparr>r_promise = Pending, r_clr = None, timedOut = False, resolved = False\<rparr>),
              barriers = (\<lambda>_. Pending),
              cancelers = (\<lambda>_. []),
              next_conn = 0, next_req = 0, next_barrier = 0\<rparr>\<rparr>"

text \<open>
  Modelled from the spec: the one-time cancellation event of a canceler invokes the
  listeners subscribed at that moment, in the order of their subscription.
\<close>

definition cancel :: "nat \<Rightarrow> kvpool \<Rightarrow> kvpool" where
  "cancel clr p = fold req_onCancel (cancelers p clr) p"

subsection \<open>Calls of the interface as steps of the engine\<close>

text \<open>
  Every public call is an action; a run is a sequence of actions, each working on the
  state the one before left. The asynchronous methods of the pool (\<open>get\<close>, \<open>set\<close>,
  \<open>delete\<close>, \<open>beginTxn\<close>) are sequences of these actions: \<open>conn\<close>, then the call on the
  connection (after \<open>reset(false)\<close> for \<open>beginTxn\<close>), then \<open>close\<close>.
\<close>

datatype action =
    PoolConn "unit IContext"
  | PoolClose
  | ConnReset nat bool
  | ConnClose nat
  | ConnSet nat string jsval
  | ConnGet nat string
  | ConnDelete nat string
  | ConnBeginTxn nat "unit IContext" "TxnOptions option"
  | TxnSet nat string jsval
  | TxnGet nat string
  | TxnDelete nat string
  | TxnCommit nat
  | TxnRollback nat
  | Cancel nat

definition on_pool :: "(kvpool \<Rightarrow> kvpool) \<Rightarrow> world \<Rightarrow> world" where
  "on_pool f w = w\<lparr>pool := f (pool w)\<rparr>"

fun step :: "action \<Rightarrow> world \<Rightarrow> world" where
  "step (PoolConn ctx) w = on_pool (\<lambda>p. snd (MemKvPool_conn ctx p)) w"
| "step PoolClose w = on_pool (\<lambda>p. snd (MemKvPool_close p)) w"
| "step (ConnReset c k) w = on_pool (reset c k) w"
| "step (ConnClose c) w = on_pool (\<lambda>p. snd (MemKvConn_close c p)) w"
| "step (ConnSet c key val) w = snd (MemKvConn_set c key val w)"
| "step (ConnGet c key) w = snd (MemKvConn_get c key w)"
| "step (ConnDelete c key) w = snd (MemKvConn_delete c key w)"
| "step (ConnBeginTxn c ctx opts) w = snd (MemKvConn_beginTxn c ctx opts w)"
| "step (TxnSet t key val) w = snd (MemKvTxn_set t key val w)"
| "step (TxnGet t key) w = snd (MemKvTxn_get t key w)"
| "step (TxnDelete t key) w = snd (MemKvTxn_delete t key w)"
| "step (TxnCommit t) w = snd (MemKvTxn_commit t w)"
| "step (TxnRollback t) w = snd (MemKvTxn_rollback t w)"
| "step (Cancel clr) w = on_pool (cancel clr) w"

definition run :: "action list \<Rightarrow> world \<Rightarrow> world" where
  "run acts w = fold step acts w"






subsection \<open>Example states\<close>

text \<open>\<open>Context.background\<close>: no canceler, no storage API.\<close>

definition background :: "unit IContext" where
  "background = \<lparr>canceler = None, storageApi = None\<rparr>"

text \<open>
  A pool of capacity 1 over the store \<open>{ a: 'b' }\<close>, with connection 0 acquired and
  transaction 0 begun on it.
\<close>

definition example_open_txn :: world where
  "example_open_txn =
     run [PoolConn background, ConnBeginTxn 0 background None] (getPool [''a'' \<mapsto> JStr ''b''] 1)"



text \<open>A pool of capacity 2 with both connections acquired.\<close>

definition example_two_active :: world where
  "example_two_active = run [PoolConn background, PoolConn background] (getPool Map.empty 2)"

text \<open>
  A context with canceler 0, and the state of \<open>example_open_txn\<close> with the transaction
  begun under that context and one write buffered.
\<close>

definition cancelable :: "unit IContext" where
  "cancelable = \<lparr>canceler = Some 0, storageApi = None\<rparr>"

definition example_cancelable_txn :: world where
  "example_cancelable_txn =
     run [PoolConn background, ConnBeginTxn 0 cancelable None, TxnSet 0 ''a'' (JStr ''c'')]
       (getPool [''a'' \<mapsto> JStr ''b''] 1)"

section \<open>The transaction coordinator\<close>

text \<open>Enum \<open>StorageMode\<close> (\<open>pool = 1\<close>, \<open>conn = 2\<close>, \<open>txn = 3\<close>).\<close>

datatype StorageMode = ModePool | ModeConn | ModeTxn

text \<open>
  \<open>runTransaction\<close> works on any object with the interfaces \<open>StorageApi\<close>,
  \<open>Transactable\<close> and \<open>StorageTxn\<close>. The environment gives, for a reference to such an
  object, its \<open>mode\<close> and its methods \<open>beginTxn\<close>, \<open>commit\<close> and \<open>rollback\<close> as
  functions on the state of the storage engine. A promise that rejects and a
  synchronous \<open>throw\<close> are both the result \<open>Inl\<close>: inside the \<open>async\<close> function, under
  \<open>await\<close>, they are the same. The awaited calls follow one another on the state; what
  other tasks do in between is not modelled.
\<close>

record ('api, 's) StorageEnv =
  api_mode :: "'api \<Rightarrow> StorageMode"
  api_beginTxn :: "'api \<Rightarrow> 'api IContext \<Rightarrow> TxnOptions option \<Rightarrow> 's \<Rightarrow> (error + 'api) \<times> 's"
  txn_commit :: "'api \<Rightarrow> 's \<Rightarrow> (error + unit) \<times> 's"
  txn_rollback :: "'api \<Rightarrow> 's \<Rightarrow> (error + unit) \<times> 's"

type_synonym ('api, 's) TxnCallback = "'api IContext \<Rightarrow> 'api \<Rightarrow> 's \<Rightarrow> (error + unit) \<times> 's"

text \<open>
  The second argument \<open>fnOrOpts\<close> is the callback or the options (\<open>Opts None\<close> for
  \<open>null\<close>); \<open>pick_callback\<close> is the overload resolution at the head of
  \<open>runTransaction\<close>.
\<close>

datatype ('api, 's) fnOrOpts = Callback "('api, 's) TxnCallback" | Opts "TxnOptions option"

definition pick_callback ::
  "('api, 's) fnOrOpts \<Rightarrow> ('api, 's) TxnCallback option
     \<Rightarrow> error + ('api, 's) TxnCallback \<times> TxnOptions option" where
  "pick_callback fnOrOpts maybeFn =
     (case fnOrOpts of
        Callback fn \<Rightarrow> Inr (fn, None)
      | Opts opts \<Rightarrow>
          (case maybeFn of None \<Rightarrow> Inl MissingCallback | Some fn \<Rightarrow> Inr (fn, opts)))"

text \<open>The \<open>catch (e)\<close> block: \<open>await txn.rollback(); throw e\<close>.\<close>

definition catch_rollback :: "('api, 's) StorageEnv \<Rightarrow> 'api \<Rightarrow> error \<Rightarrow> 's \<Rightarrow> (error + unit) \<times> 's" where
  "catch_rollback env tx e s =
     (case txn_rollback env tx s of
        (Inl e', s1) \<Rightarrow> (Inl e', s1)
      | (Inr u, s1) \<Rightarrow> (Inl e, s1))"

definition runTransaction ::
  "('api, 's) StorageEnv \<Rightarrow> 'api IContext \<Rightarrow> ('api, 's) fnOrOpts
     \<Rightarrow> ('api, 's) TxnCallback option \<Rightarrow> 's \<Rightarrow> (error + unit) \<times> 's" where
  "runTransaction env ctx fnOrOpts maybeFn s =
     (case getStorageApi ctx of
        None \<Rightarrow> (Inl NoStorageApi, s)
      | Some api \<Rightarrow>
          (case pick_callback fnOrOpts maybeFn of
             Inl e \<Rightarrow> (Inl e, s)
           | Inr (fn, opts) \<Rightarrow>
               if api_mode env api = ModeTxn then fn ctx api s
               else
                 (case api_beginTxn env api ctx opts s of
                    (Inl e, s1) \<Rightarrow> (Inl e, s1)
                  | (Inr tx, s1) \<Rightarrow>
                      (let childCtx = withStorageApi ctx tx
                       in case fn childCtx tx s1 of
                            (Inl e, s2) \<Rightarrow> catch_rollback env tx e s2
                          | (Inr u, s2) \<Rightarrow>
                              (case txn_commit env tx s2 of
                                 (Inl e, s3) \<Rightarrow> catch_rollback env tx e s3
                               | (Inr u', s3) \<Rightarrow> (Inr (), s3))))))"

subsection \<open>The key-value engine as a storage API\<close>

text \<open>
  Connections and transactions of the key-value engine as storage APIs. A connection
  has no \<open>commit\<close> or \<open>rollback\<close> and a transaction no \<open>beginTxn\<close>: calling them is a
  \<open>TypeError\<close> of the runtime.
\<close>

datatype kvapi = ConnApi nat | TxnApi nat

fun void :: "(error + 'a) \<times> 's \<Rightarrow> (error + unit) \<times> 's" where
  "void (Inl e, s) = (Inl e, s)"
| "void (Inr x, s) = (Inr (), s)"

fun kv_mode :: "kvapi \<Rightarrow> StorageMode" where
  "kv_mode (ConnApi c) = ModeConn"
| "kv_mode (TxnApi t) = ModeTxn"

fun kv_beginTxn :: "kvapi \<Rightarrow> kvapi IContext \<Rightarrow> TxnOptions option \<Rightarrow> world \<Rightarrow> (error + kvapi) \<times> world" where
  "kv_beginTxn (ConnApi c) ctx opts w =
     (case MemKvConn_beginTxn c ctx opts w of
        (Inl e, w1) \<Rightarrow> (Inl e, w1)
      | (Inr t, w1) \<Rightarrow> (Inr (TxnApi t), w1))"
| "kv_beginTxn (TxnApi t) ctx opts w = (Inl (UserError ''beginTxn is not a function''), w)"

fun kv_commit :: "kvapi \<Rightarrow> world \<Rightarrow> (error + unit) \<times> world" where
  "kv_commit (TxnApi t) w = void (MemKvTxn_commit t w)"
| "kv_commit (ConnApi c) w = (Inl (UserError ''commit is not a function''), w)"

fun kv_rollback :: "kvapi \<Rightarrow> world \<Rightarrow> (error + unit) \<times> world" where
  "kv_rollback (TxnApi t) w = void (MemKvTxn_rollback t w)"
| "kv_rollback (ConnApi c) w = (Inl (UserError ''rollback is not a function''), w)"

definition kv_env :: "(kvapi, world) StorageEnv" where
  "kv_env = \<lparr>api_mode = kv_mode, api_beginTxn = kv_beginTxn,
             txn_commit = kv_commit, txn_rollback = kv_rollback\<rparr>"


text \<open>
  A context bound to connection 0, the state with that connection acquired, and three
  callbacks: one buffers a write, one buffers a write and then throws, one commits the
  transaction itself and then throws.
\<close>

definition conn_ctx :: "kvapi IContext" where
  "conn_ctx = \<lparr>canceler = None, storageApi = Some (ConnApi 0)\<rparr>"

definition example_one_conn :: world where
  "example_one_conn = step (PoolConn background) (getPool [''a'' \<mapsto> JStr ''b''] 1)"

fun cb_set :: "(kvapi, world) TxnCallback" where
  "cb_set ctx (TxnApi t) w = MemKvTxn_set t ''a'' (JStr ''c'') w"
| "cb_set ctx (ConnApi c) w = MemKvConn_set c ''a'' (JStr ''c'') w"

definition cb_set_then_throw :: "(kvapi, world) TxnCallback" where
  "cb_set_then_throw ctx tx w =
     (case cb_set ctx tx w of
        (Inl e, w1) \<Rightarrow> (Inl e, w1)
      | (Inr u, w1) \<Rightarrow> (Inl (UserError ''Failing on purpose''), w1))"

definition cb_commit_then_throw :: "(kvapi, world) TxnCallback" where
  "cb_commit_then_throw ctx tx w =
     (case kv_commit tx w of
        (Inl e, w1) \<Rightarrow> (Inl e, w1)
      | (Inr u, w1) \<Rightarrow> (Inl (UserError ''Failing on purpose''), w1))"

definition txn_ctx :: "kvapi IContext" where
  "txn_ctx = withStorageApi conn_ctx (TxnApi 0)"

section \<open>Notions for the properties of the pool\<close>

text \<open>
  A queued request whose context was canceled: built by \<open>cancelableConnRequest\<close>, with \<open>timedOut\<close> set.
\<close>

definition canceled :: "kvpool \<Rightarrow> nat \<Rightarrow> bool" where
  "canceled p r = (r_clr (reqs p r) \<noteq> None \<and> timedOut (reqs p r))"

text \<open>
  What \<open>return(c)\<close> does with the queue, where \<open>ix\<close> is the index of \<open>c\<close> in \<open>#active\<close>: the first request that is not canceled gets the connection, which
  stays active, open and out of the idle list; with no such request the connection moves to the
  idle list. The canceled requests before it are taken off the queue.
\<close>

definition granted :: "nat \<Rightarrow> nat \<Rightarrow> kvpool \<Rightarrow> kvpool \<Rightarrow> bool" where
  "granted c ix p p1 =
     (case dropWhile (canceled p) (reqQueue p) of
        [] \<Rightarrow> reqQueue p1 = [] \<and> active p1 = splice1 ix (active p) \<and> p_pool p1 = p_pool p @ [c]
              \<and> reqs p1 = reqs p
      | r # rest \<Rightarrow> reqQueue p1 = rest \<and> active p1 = active p \<and> p_pool p1 = p_pool p
              \<and> r_promise (reqs p1 r) = promise_resolve c (r_promise (reqs p r))
              \<and> (\<forall>r'. r' \<noteq> r \<longrightarrow> reqs p1 r' = reqs p r')
              \<and> \<not> closed (conns p1 c) \<and> keepOpen (conns p1 c))"

text \<open>
  One \<open>conn()\<close> call for every context of a list, in order, with the results.
\<close>

fun conn_all :: "'api IContext list \<Rightarrow> kvpool \<Rightarrow> (error + cpromise) list \<times> kvpool" where
  "conn_all [] p = ([], p)"
| "conn_all (ctx # ctxs) p =
     (case MemKvPool_conn ctx p of
        (r, p1) \<Rightarrow> (case conn_all ctxs p1 of (rs, p2) \<Rightarrow> (r # rs, p2)))"

text \<open>
  The calls that can hand a connection back to the pool.
\<close>

fun is_release :: "action \<Rightarrow> bool" where
  "is_release (ConnClose c) = True"
| "is_release PoolClose = True"
| "is_release (TxnCommit t) = True"
| "is_release (TxnRollback t) = True"
| "is_release a = False"

text \<open>
  What every call on the pool other than \<open>conn()\<close> leaves in place: no request is created, the
  capacity and a set closed flag stay, \<open>#txn\<close> stays \<open>null\<close>, a settled promise stays as it is,
  a request stays timed out and keeps its canceler.
\<close>

definition frame :: "kvpool \<Rightarrow> kvpool \<Rightarrow> bool" where
  "frame p p1 \<longleftrightarrow>
     next_req p1 = next_req p \<and> maxCnt p1 = maxCnt p \<and> (p_closed p \<longrightarrow> p_closed p1)
     \<and> (\<forall>c. txn (conns p c) = None \<longrightarrow> txn (conns p1 c) = None)
     \<and> (\<forall>r. r_promise (reqs p r) \<noteq> Pending \<longrightarrow> r_promise (reqs p1 r) = r_promise (reqs p r))
     \<and> (\<forall>r. (timedOut (reqs p r) \<longrightarrow> timedOut (reqs p1 r)) \<and> r_clr (reqs p1 r) = r_clr (reqs p r))"

text \<open>
  Only the requests in \<open>R\<close> change, and only they are unsubscribed from a canceler.
\<close>

definition touches_only :: "nat set \<Rightarrow> kvpool \<Rightarrow> kvpool \<Rightarrow> bool" where
  "touches_only R p p1 \<longleftrightarrow>
     (\<forall>r. r \<notin> R \<longrightarrow> reqs p1 r = reqs p r
        \<and> (\<forall>clr. r \<in> set (cancelers p clr) \<longrightarrow> r \<in> set (cancelers p1 clr)))"

text \<open>
  A release takes some requests off the front of the queue and changes these (and \<open>R\<close>) only.
\<close>

definition dequeues :: "nat set \<Rightarrow> kvpool \<Rightarrow> kvpool \<Rightarrow> bool" where
  "dequeues R p p1 \<longleftrightarrow>
     (\<exists>k. reqQueue p1 = drop k (reqQueue p) \<and> touches_only (R \<union> set (take k (reqQueue p))) p p1)"

text \<open>
  A request that still waits: pending, not resolved, and subscribed to its canceler if it has one.
\<close>

definition waiting :: "kvpool \<Rightarrow> nat \<Rightarrow> bool" where
  "waiting p r \<longleftrightarrow>
     r_promise (reqs p r) = Pending \<and> \<not> resolved (reqs p r)
     \<and> (\<forall>clr. r_clr (reqs p r) = Some clr \<longrightarrow> r \<in> set (cancelers p clr))"

text \<open>
  The invariant of the pool: no connection has \<open>#txn\<close> set; the queue holds existing
  requests, each once; a queued request is waiting, or it is canceled and its promise rejected with
  the cancellation error.
\<close>

definition pool_inv :: "kvpool \<Rightarrow> bool" where
  "pool_inv p \<longleftrightarrow>
     (\<forall>c. txn (conns p c) = None) \<and> distinct (reqQueue p)
     \<and> (\<forall>r\<in>set (reqQueue p). r < next_req p \<and> (\<not> canceled p r \<longrightarrow> waiting p r)
            \<and> (canceled p r \<longrightarrow> r_promise (reqs p r) = Rejected ContextCanceled))"

text \<open>
  The number of connections the pool holds, active and idle.
\<close>

definition total :: "kvpool \<Rightarrow> nat" where
  "total p = length (active p) + length (p_pool p)"

text \<open>
  The capacity invariant.
\<close>

definition cap_inv :: "kvpool \<Rightarrow> bool" where
  "cap_inv p \<longleftrightarrow> int (total p) \<le> max 0 (maxCnt p)"

text \<open>
  A pool of capacity 1 with its connection acquired and two requests queued, the first one
  (request 0) under the cancelable context with canceler 0.
\<close>

definition example_two_waiting :: world where
  "example_two_waiting =
     run [PoolConn background, PoolConn cancelable, PoolConn background] (getPool Map.empty 1)"

text \<open>The state \<open>example_two_waiting\<close> after canceler 0 has fired.\<close>

definition example_canceled :: world where
  "example_canceled = step (Cancel 0) example_two_waiting"

text \<open>
  A pool of capacity 1 with its connection acquired and two requests queued, the second
  one (request 1) under the cancelable context, after canceler 0 has fired: a canceled
  request behind a request that is not canceled.
\<close>

definition example_canceled_behind :: world where
  "example_canceled_behind =
     run [PoolConn background, PoolConn background, PoolConn cancelable, Cancel 0]
       (getPool Map.empty 1)"

section \<open>The in-memory stack engine\<close>

text \<open>
  The stack store of the test fixtures, the sibling of the key-value engine: the parts that
  deal with cancellation and with closing a connection under an open transaction.
\<close>

text \<open>
  Interface \<open>StackOp\<close>.
\<close>

datatype StackOp = OpPush jsval | OpPop

text \<open>
  Class \<open>MemStackTxn\<close>. \<open>s_onCancel\<close> tells whether \<open>#onCancel\<close> holds the bound listener
  (\<open>this.#cancel\<close>) or \<open>null\<close>; \<open>s_con\<close> is the owning connection.
\<close>

record stxn =
  s_con :: nat
  snap :: "jsval list"
  s_ops :: "StackOp list"
  s_readonly :: bool
  s_done :: bool
  s_clr :: "nat option"
  s_onCancel :: bool

text \<open>
  Class \<open>MemStackConn\<close>.
\<close>

record sconn =
  sc_txns :: "nat list"
  sc_keepOpen :: bool
  sc_closed :: bool
  closeResolve :: "nat option"

text \<open>
  The stack engine: the shared array, the transactions and connections, the fields of
  \<open>MemStackPool\<close>, the close-barriers, and for every canceler its subscribed listeners (each the
  \<open>#cancel\<close> of a transaction).
\<close>

record sworld =
  stack :: "jsval list"
  stxns :: "nat \<Rightarrow> stxn"
  sconns :: "nat \<Rightarrow> sconn"
  sp_active :: "nat list"
  sp_closed :: bool
  sp_waitClose :: "nat option"
  s_barriers :: "nat \<Rightarrow> unit pstate"
  s_cancelers :: "nat \<Rightarrow> nat list"
  s_next_txn :: nat
  s_next_conn :: nat
  s_next_barrier :: nat

definition upd_stxn :: "nat \<Rightarrow> (stxn \<Rightarrow> stxn) \<Rightarrow> sworld \<Rightarrow> sworld" where
  "upd_stxn t f w = w\<lparr>stxns := (stxns w)(t := f (stxns w t))\<rparr>"

definition upd_sconn :: "nat \<Rightarrow> (sconn \<Rightarrow> sconn) \<Rightarrow> sworld \<Rightarrow> sworld" where
  "upd_sconn c f w = w\<lparr>sconns := (sconns w)(c := f (sconns w c))\<rparr>"

text \<open>
  \<open>MemStackPool._release\<close>.
\<close>

definition MemStackPool_release :: "nat \<Rightarrow> sworld \<Rightarrow> sworld" where
  "MemStackPool_release con w =
     (case indexOf (sp_active w) con of
        None \<Rightarrow> w
      | Some ix \<Rightarrow>
          (let w1 = w\<lparr>sp_active := splice1 ix (sp_active w)\<rparr>
           in if sp_active w1 = [] then
                (case sp_waitClose w1 of
                   None \<Rightarrow> w1
                 | Some wc \<Rightarrow>
                     w1\<lparr>sp_waitClose := None,
                        s_barriers := (s_barriers w1)(wc := promise_resolve () (s_barriers w1 wc))\<rparr>)
              else w1))"

text \<open>
  \<open>MemStackConn.close\<close>. The \<open>for ... in\<close> loop returns in its first round, so it tests
  whether \<open>#txns\<close> is empty.
\<close>

definition MemStackConn_close :: "nat \<Rightarrow> sworld \<Rightarrow> (error + vpromise) \<times> sworld" where
  "MemStackConn_close c w =
     (if sc_closed (sconns w c) then (Inl ConnectionClosed, w)
      else
        (let w1 = upd_sconn c (\<lambda>x. x\<lparr>sc_closed := True\<rparr>) w
         in if sc_txns (sconns w1 c) \<noteq> [] then
              (let b = s_next_barrier w1
               in (Inr (Barrier b),
                   upd_sconn c (\<lambda>x. x\<lparr>closeResolve := Some b\<rparr>)
                     (w1\<lparr>s_barriers := (s_barriers w1)(b := Pending), s_next_barrier := Suc b\<rparr>)))
            else (Inr ResolvedNow, MemStackPool_release c w1)))"

text \<open>
  \<open>MemStackConn._txnDone\<close>.
\<close>

definition MemStackConn_txnDone :: "nat \<Rightarrow> nat \<Rightarrow> sworld \<Rightarrow> (error + vpromise option) \<times> sworld" where
  "MemStackConn_txnDone c t w =
     (case indexOf (sc_txns (sconns w c)) t of
        None \<Rightarrow> (Inr None, w)
      | Some ix \<Rightarrow>
          (let w1 = upd_sconn c (\<lambda>x. x\<lparr>sc_txns := splice1 ix (sc_txns x)\<rparr>) w
           in if sc_txns (sconns w1 c) = [] then
                (case closeResolve (sconns w1 c) of
                   Some b \<Rightarrow>
                     (let w2 = MemStackPool_release c w1
                      in (Inr None, w2\<lparr>s_barriers := (s_barriers w2)(b := promise_resolve () (s_barriers w2 b))\<rparr>))
                 | None \<Rightarrow>
                     if \<not> sc_keepOpen (sconns w1 c) then
                       (case MemStackConn_close c w1 of
                          (Inl e, w2) \<Rightarrow> (Inl e, w2)
                        | (Inr pr, w2) \<Rightarrow> (Inr (Some pr), w2))
                     else (Inr None, w1))
              else (Inr None, w1)))"

text \<open>
  \<open>MemStackTxn.#cancel\<close>, \<open>rollback\<close> and \<open>#complete\<close> call one another: the listener rolls an
  open transaction back, and completion runs \<open>#cancel\<close> to unsubscribe. By then \<open>#done\<close> is set,
  which ends the recursion.
\<close>

function MemStackTxn_cancel :: "nat \<Rightarrow> sworld \<Rightarrow> (error + unit) \<times> sworld"
  and MemStackTxn_rollback :: "nat \<Rightarrow> sworld \<Rightarrow> (error + vpromise) \<times> sworld"
  and MemStackTxn_complete :: "nat \<Rightarrow> sworld \<Rightarrow> (error + vpromise) \<times> sworld"
where
  "MemStackTxn_cancel t w =
     (let w1 = (if s_onCancel (stxns w t) then
                  upd_stxn t (\<lambda>x. x\<lparr>s_onCancel := False\<rparr>)
                    (case s_clr (stxns w t) of
                       None \<Rightarrow> w
                     | Some clr \<Rightarrow> w\<lparr>s_cancelers := (s_cancelers w)(clr := removeAll t (s_cancelers w clr))\<rparr>)
                else w)
      in if \<not> s_done (stxns w1 t) then
           (case MemStackTxn_rollback t w1 of
              (Inl e, w2) \<Rightarrow> (Inl e, w2)
            | (Inr pr, w2) \<Rightarrow> (Inr (), w2))
         else (Inr (), w1))"
| "MemStackTxn_rollback t w =
     (if s_done (stxns w t) then (Inl TransactionComplete, w)
      else MemStackTxn_complete t (upd_stxn t (\<lambda>x. x\<lparr>s_done := True\<rparr>) w))"
| "MemStackTxn_complete t w =
     (case MemStackTxn_cancel t w of
        (Inl e, w1) \<Rightarrow> (Inl e, w1)
      | (Inr u, w1) \<Rightarrow>
          (case MemStackConn_txnDone (s_con (stxns w1 t)) t w1 of
             (Inl e, w2) \<Rightarrow> (Inl e, w2)
           | (Inr None, w2) \<Rightarrow> (Inr ResolvedNow, w2)
           | (Inr (Some pr), w2) \<Rightarrow> (Inr pr, w2)))"
  by pat_completeness auto

termination
  by (relation "measure (\<lambda>x. case x of
          Inl (t, w) \<Rightarrow> (if s_done (stxns w t) then 1 else 5)
        | Inr (Inl (t, w)) \<Rightarrow> (if s_done (stxns w t) then 0 else 4)
        | Inr (Inr (t, w)) \<Rightarrow> (if s_done (stxns w t) then 2 else 6))")
     (auto simp: upd_stxn_def split: option.splits if_splits)

declare MemStackTxn_cancel.simps [simp del] MemStackTxn_rollback.simps [simp del]
  MemStackTxn_complete.simps [simp del]

text \<open>
  The replay loop of \<open>commit\<close>; \<open>pop\<close> on the empty array leaves it empty.
\<close>

fun apply_stack_op :: "StackOp \<Rightarrow> jsval list \<Rightarrow> jsval list" where
  "apply_stack_op OpPop st = butlast st"
| "apply_stack_op (OpPush val) st = st @ [val]"

definition MemStackTxn_commit :: "nat \<Rightarrow> sworld \<Rightarrow> (error + vpromise) \<times> sworld" where
  "MemStackTxn_commit t w =
     (if s_done (stxns w t) then (Inl TransactionComplete, w)
      else
        (let w1 = upd_stxn t (\<lambda>x. x\<lparr>s_done := True\<rparr>) w;
             w2 = w1\<lparr>stack := fold apply_stack_op (s_ops (stxns w1 t)) (stack w1)\<rparr>
         in MemStackTxn_complete t w2))"

text \<open>
  \<open>push\<close>, \<open>pop\<close> and \<open>peek\<close> of a transaction work on the snapshot. The error of a mutating
  call in a read-only transaction is 'Cannot push or pop: Transaction is read-only'.
\<close>

definition MemStackTxn_push :: "nat \<Rightarrow> jsval \<Rightarrow> sworld \<Rightarrow> (error + nat) \<times> sworld" where
  "MemStackTxn_push t val w =
     (if s_done (stxns w t) then (Inl TransactionComplete, w)
      else if s_readonly (stxns w t) then (Inl TransactionReadOnly, w)
      else (Inr (Suc (length (snap (stxns w t)))),
            upd_stxn t (\<lambda>x. x\<lparr>s_ops := s_ops x @ [OpPush val], snap := snap x @ [val]\<rparr>) w))"

definition MemStackTxn_pop :: "nat \<Rightarrow> sworld \<Rightarrow> (error + jsval) \<times> sworld" where
  "MemStackTxn_pop t w =
     (if s_done (stxns w t) then (Inl TransactionComplete, w)
      else if s_readonly (stxns w t) then (Inl TransactionReadOnly, w)
      else (Inr (if snap (stxns w t) = [] then Undefined else last (snap (stxns w t))),
            upd_stxn t (\<lambda>x. x\<lparr>s_ops := s_ops x @ [OpPop], snap := butlast (snap x)\<rparr>) w))"

definition MemStackTxn_peek :: "nat \<Rightarrow> sworld \<Rightarrow> (error + jsval) \<times> sworld" where
  "MemStackTxn_peek t w =
     (if s_done (stxns w t) then (Inl TransactionComplete, w)
      else (Inr (if snap (stxns w t) = [] then Undefined else last (snap (stxns w t))), w))"

text \<open>
  \<open>MemStackConn.beginTxn\<close> with the constructor of \<open>MemStackTxn\<close>: the snapshot is a copy of
  the stack, and with a canceler on the context the listener is subscribed; the transaction is
  entered in \<open>#txns\<close>.
\<close>

definition MemStackConn_beginTxn ::
  "nat \<Rightarrow> 'api IContext \<Rightarrow> TxnOptions option \<Rightarrow> sworld \<Rightarrow> (error + nat) \<times> sworld" where
  "MemStackConn_beginTxn c ctx opts w =
     (if sc_closed (sconns w c) then (Inl ConnectionClosed, w)
      else
        (let t = s_next_txn w;
             w1 = w\<lparr>stxns := (stxns w)(t :=
                     \<lparr>s_con = c, snap = stack w, s_ops = [],
                      s_readonly = (case opts of None \<Rightarrow> False | Some opt \<Rightarrow> readOnly opt = Some True),
                      s_done = False, s_clr = None, s_onCancel = False\<rparr>),
                   s_next_txn := Suc t\<rparr>;
             w2 = (case canceler ctx of
                     None \<Rightarrow> w1
                   | Some clr \<Rightarrow>
                       (upd_stxn t (\<lambda>x. x\<lparr>s_clr := Some clr, s_onCancel := True\<rparr>) w1)
                         \<lparr>s_cancelers := (s_cancelers w1)(clr := s_cancelers w1 clr @ [t])\<rparr>)
         in (Inr t, upd_sconn c (\<lambda>x. x\<lparr>sc_txns := sc_txns x @ [t]\<rparr>) w2)))"

text \<open>
  Closing and releasing a connection leave the stack, the transactions and the cancelers alone.
\<close>

definition same_txn_side :: "sworld \<Rightarrow> sworld \<Rightarrow> bool" where
  "same_txn_side w w1 \<longleftrightarrow> stack w1 = stack w \<and> stxns w1 = stxns w \<and> s_cancelers w1 = s_cancelers w"

subsection \<open>The stack engine as a storage API\<close>

text \<open>
  \<open>openStackPool(stack)\<close>.
\<close>

definition openStackPool :: "jsval list \<Rightarrow> sworld" where
  "openStackPool st =
     \<lparr>stack = st,
      stxns = (\<lambda>_. \<lparr>s_con = 0, snap = [], s_ops = [], s_readonly = False, s_done = False,
                    s_clr = None, s_onCancel = False\<rparr>),
      sconns = (\<lambda>_. \<lparr>sc_txns = [], sc_keepOpen = False, sc_closed = False, closeResolve = None\<rparr>),
      sp_active = [], sp_closed = False, sp_waitClose = None,
      s_barriers = (\<lambda>_. Pending), s_cancelers = (\<lambda>_. []),
      s_next_txn = 0, s_next_conn = 0, s_next_barrier = 0\<rparr>"

text \<open>
  \<open>MemStackPool.beginTxn\<close>: a new connection with \<open>keepOpen = false\<close>, which is not entered in
  \<open>#active\<close>, and a transaction on it.
\<close>

definition MemStackPool_beginTxn ::
  "'api IContext \<Rightarrow> TxnOptions option \<Rightarrow> sworld \<Rightarrow> (error + nat) \<times> sworld" where
  "MemStackPool_beginTxn ctx opts w =
     (if sp_closed w then (Inl PoolClosed, w)
      else
        (let con = s_next_conn w
         in MemStackConn_beginTxn con ctx opts
              (w\<lparr>sconns := (sconns w)(con :=
                     \<lparr>sc_txns = [], sc_keepOpen = False, sc_closed = False, closeResolve = None\<rparr>),
                 s_next_conn := Suc con\<rparr>)))"

text \<open>
  The pool and the transactions of the stack engine as storage APIs.
\<close>

datatype stackapi = StackPoolApi | StackTxnApi nat

fun stack_mode :: "stackapi \<Rightarrow> StorageMode" where
  "stack_mode StackPoolApi = ModePool"
| "stack_mode (StackTxnApi t) = ModeTxn"

fun stack_beginTxn ::
  "stackapi \<Rightarrow> stackapi IContext \<Rightarrow> TxnOptions option \<Rightarrow> sworld \<Rightarrow> (error + stackapi) \<times> sworld" where
  "stack_beginTxn StackPoolApi ctx opts w =
     (case MemStackPool_beginTxn ctx opts w of
        (Inl e, w1) \<Rightarrow> (Inl e, w1)
      | (Inr t, w1) \<Rightarrow> (Inr (StackTxnApi t), w1))"
| "stack_beginTxn (StackTxnApi t) ctx opts w = (Inl (UserError ''beginTxn is not a function''), w)"

fun stack_commit :: "stackapi \<Rightarrow> sworld \<Rightarrow> (error + unit) \<times> sworld" where
  "stack_commit (StackTxnApi t) w = void (MemStackTxn_commit t w)"
| "stack_commit StackPoolApi w = (Inl (UserError ''commit is not a function''), w)"

fun stack_rollback :: "stackapi \<Rightarrow> sworld \<Rightarrow> (error + unit) \<times> sworld" where
  "stack_rollback (StackTxnApi t) w = void (MemStackTxn_rollback t w)"
| "stack_rollback StackPoolApi w = (Inl (UserError ''rollback is not a function''), w)"

definition stack_env :: "(stackapi, sworld) StorageEnv" where
  "stack_env = \<lparr>api_mode = stack_mode, api_beginTxn = stack_beginTxn,
                txn_commit = stack_commit, txn_rollback = stack_rollback\<rparr>"

text \<open>
  \<open>Context.value(withStackApi, pool)\<close>, and the callbacks of the tests: one pushes \<open>'c'\<close>, one
  pushes, checks that \<open>peek\<close> gives \<open>'c'\<close> and then throws.
\<close>

definition ctxRoot :: "stackapi IContext" where
  "ctxRoot = withStorageApi \<lparr>canceler = None, storageApi = None\<rparr> StackPoolApi"

fun cb_push :: "(stackapi, sworld) TxnCallback" where
  "cb_push ctx (StackTxnApi t) w = void (MemStackTxn_push t (JStr ''c'') w)"
| "cb_push ctx StackPoolApi w = (Inl (UserError ''push on the pool''), w)"

fun cb_push_peek_throw :: "(stackapi, sworld) TxnCallback" where
  "cb_push_peek_throw ctx (StackTxnApi t) w =
     (case MemStackTxn_push t (JStr ''c'') w of
        (Inl e, w1) \<Rightarrow> (Inl e, w1)
      | (Inr n, w1) \<Rightarrow>
          (case MemStackTxn_peek t w1 of
             (Inl e, w2) \<Rightarrow> (Inl e, w2)
           | (Inr v, w2) \<Rightarrow>
               if v = JStr ''c'' then (Inl (UserError ''Failing on purpose''), w2)
               else (Inl (UserError ''expect failed''), w2)))"
| "cb_push_peek_throw ctx StackPoolApi w = (Inl (UserError ''push on the pool''), w)"

section \<open>Properties of transactions\<close>

lemmas txn_defs = MemKvTxn_set_def MemKvTxn_get_def MemKvTxn_delete_def MemKvTxn_commit_def
  MemKvTxn_rollback_def MemKvTxn_close_def upd_txn_def
lemmas conn_defs = MemKvConn_set_def MemKvConn_get_def MemKvConn_delete_def MemKvConn_beginTxn_def

subsection \<open>Property access\<close>



lemma temp_assign_frame [simp]:
  "store (snd (temp_assign t key val w)) = store w"
  "store_proto (snd (temp_assign t key val w)) = store_proto w"
  "next_txn (snd (temp_assign t key val w)) = next_txn w"
  "pool (snd (temp_assign t key val w)) = pool w"
  "t_done (txns (snd (temp_assign t key val w)) t') = t_done (txns w t')"
  "t_readonly (txns (snd (temp_assign t key val w)) t') = t_readonly (txns w t')"
  "onComplete (txns (snd (temp_assign t key val w)) t') = onComplete (txns w t')"
  "ops (txns (snd (temp_assign t key val w)) t') = ops (txns w t')"
  by (auto simp: temp_assign_def upd_txn_def split: assignment.splits)




lemma store_assign_frame [simp]:
  "txns (snd (store_assign key val w)) = txns w"
  "next_txn (snd (store_assign key val w)) = next_txn w"
  "pool (snd (store_assign key val w)) = pool w"
  by (auto simp: store_assign_def split: assignment.splits option.splits objref.splits)

lemma apply_op_frame [simp]:
  "txns (snd (apply_op x w)) = txns w"
  "next_txn (snd (apply_op x w)) = next_txn w"
  "pool (snd (apply_op x w)) = pool w"
  by (cases x; simp)+

lemma replay_frame [simp]:
  "txns (snd (replay xs w)) = txns w"
  "next_txn (snd (replay xs w)) = next_txn w"
  "pool (snd (replay xs w)) = pool w"
proof (induction xs arbitrary: w)
  case Nil
  {
    case 1 show ?case by simp
  next
    case 2 show ?case by simp
  next
    case 3 show ?case by simp
  }
next
  case (Cons x xs)
  {
    case 1
    show ?case
      using Cons.IH(1) [of "snd (apply_op x w)"] apply_op_frame(1) [of x w]
      by (cases "apply_op x w") (auto split: sum.splits)
  next
    case 2
    show ?case
      using Cons.IH(2) [of "snd (apply_op x w)"] apply_op_frame(2) [of x w]
      by (cases "apply_op x w") (auto split: sum.splits)
  next
    case 3
    show ?case
      using Cons.IH(3) [of "snd (apply_op x w)"] apply_op_frame(3) [of x w]
      by (cases "apply_op x w") (auto split: sum.splits)
  }
qed

lemma replay_frame_dest:
  "replay xs w = (r, w1) \<Longrightarrow> txns w1 = txns w \<and> next_txn w1 = next_txn w \<and> pool w1 = pool w"
  using replay_frame [of xs w] by simp

subsection \<open>Frames of a step\<close>

lemma MemKvTxn_close_frame:
  "store (snd (MemKvTxn_close t w)) = store w"
  "store_proto (snd (MemKvTxn_close t w)) = store_proto w"
  "txns (snd (MemKvTxn_close t w)) = txns w"
  "next_txn (snd (MemKvTxn_close t w)) = next_txn w"
  by (auto simp: MemKvTxn_close_def split: prod.splits sum.splits option.splits)

lemma commit_frame:
  "next_txn (snd (MemKvTxn_commit t w)) = next_txn w"
  "t' \<noteq> t \<Longrightarrow> txns (snd (MemKvTxn_commit t w)) t' = txns w t'"
  "temp (txns (snd (MemKvTxn_commit t w)) t') = temp (txns w t')"
  "temp_proto (txns (snd (MemKvTxn_commit t w)) t') = temp_proto (txns w t')"
  "t_done (txns w t') \<Longrightarrow> t_done (txns (snd (MemKvTxn_commit t w)) t')"
  "t_done (txns (snd (MemKvTxn_commit t w)) t)"
  by (auto simp: MemKvTxn_commit_def Let_def MemKvTxn_close_frame upd_txn_def
      split: prod.splits sum.splits dest!: replay_frame_dest)

lemma step_next_txn_mono: "next_txn w \<le> next_txn (step a w)"
proof (cases a)
  case (TxnCommit t')
  then show ?thesis by (simp add: commit_frame)
qed (auto simp: on_pool_def txn_defs conn_defs Let_def MemKvTxn_close_frame
      split: prod.splits sum.splits option.splits)




lemma step_done_mono:
  "t < next_txn w \<Longrightarrow> t_done (txns w t) \<Longrightarrow> t_done (txns (step a w) t)"
proof (cases a)
  case (TxnCommit t')
  assume "t_done (txns w t)"
  with TxnCommit show ?thesis by (simp add: commit_frame)
qed (auto simp: on_pool_def txn_defs conn_defs Let_def
      split: prod.splits sum.splits option.splits)


lemma run_Nil [simp]: "run [] w = w"
  by (simp add: run_def)

lemma run_Cons [simp]: "run (a # acts) w = run acts (step a w)"
  by (simp add: run_def)

lemma run_append: "run (xs @ ys) w = run ys (run xs w)"
  by (simp add: run_def)

lemma run_next_txn_mono: "next_txn w \<le> next_txn (run acts w)"
proof (induction acts arbitrary: w)
  case Nil
  show ?case by simp
next
  case (Cons a acts)
  have "next_txn w \<le> next_txn (step a w)" by (rule step_next_txn_mono)
  also have "\<dots> \<le> next_txn (run acts (step a w))" by (rule Cons.IH)
  finally show ?case by simp
qed




lemma run_done_mono:
  "t < next_txn w \<Longrightarrow> t_done (txns w t) \<Longrightarrow> t_done (txns (run acts w) t)"
proof (induction acts arbitrary: w)
  case Nil
  then show ?case by simp
next
  case (Cons a acts)
  have "t < next_txn (step a w)"
    using Cons.prems(1) step_next_txn_mono [of w a] by simp
  moreover have "t_done (txns (step a w) t)"
    using Cons.prems by (rule step_done_mono)
  ultimately show ?case using Cons.IH by simp
qed

lemma commit_sets_done: "t_done (txns (step (TxnCommit t) w) t)"
  by (simp add: commit_frame)

lemma rollback_sets_done: "t_done (txns (step (TxnRollback t) w) t)"
  by (simp add: MemKvTxn_rollback_def upd_txn_def Let_def MemKvTxn_close_frame)

lemma done_calls_fail:
  assumes "t_done (txns w t)"
  shows "MemKvTxn_commit t w = (Inl TransactionComplete, w)"
    and "MemKvTxn_rollback t w = (Inl TransactionComplete, w)"
    and "MemKvTxn_set t key val w = (Inl TransactionComplete, w)"
    and "MemKvTxn_get t key w = (Inl TransactionComplete, w)"
    and "MemKvTxn_delete t key w = (Inl TransactionComplete, w)"
  using assms by (simp_all add: txn_defs)

lemma example_open_txn_eval:
  "next_txn example_open_txn = 1" "\<not> t_done (txns example_open_txn 0)"
  by (simp_all add: example_open_txn_def getPool_def background_def on_pool_def MemKvPool_conn_def
      MemKvConn_beginTxn_def reset_def upd_conn_def new_conn_def Let_def)

text \<open>
  C7. Once \<open>commit()\<close> or \<open>rollback()\<close> has been called on an existing transaction, the
  transaction is done and stays done whatever calls follow on the engine, and each of
  \<open>commit\<close>, \<open>rollback\<close>, \<open>set\<close>, \<open>get\<close> and \<open>delete\<close> then fails with
  'Transaction is already complete' and changes nothing. In particular a second
  \<open>commit()\<close> or \<open>rollback()\<close> fails, whichever of the two came first.
\<close>

theorem txn_done_is_terminal:
  assumes "t < next_txn w"
    and "fin = TxnCommit t \<or> fin = TxnRollback t"
  shows "t_done (txns (run acts (step fin w)) t)
    \<and> MemKvTxn_commit t (run acts (step fin w)) = (Inl TransactionComplete, run acts (step fin w))
    \<and> MemKvTxn_rollback t (run acts (step fin w)) = (Inl TransactionComplete, run acts (step fin w))
    \<and> MemKvTxn_set t key val (run acts (step fin w)) = (Inl TransactionComplete, run acts (step fin w))
    \<and> MemKvTxn_get t key (run acts (step fin w)) = (Inl TransactionComplete, run acts (step fin w))
    \<and> MemKvTxn_delete t key (run acts (step fin w)) = (Inl TransactionComplete, run acts (step fin w))"
proof -
  have "t_done (txns (step fin w) t)"
    using assms(2) commit_sets_done rollback_sets_done by auto
  moreover have "t < next_txn (step fin w)"
    using assms(1) step_next_txn_mono [of w fin] by simp
  ultimately have "t_done (txns (run acts (step fin w)) t)"
    by (rule run_done_mono [rotated])
  then show ?thesis
    by (simp add: done_calls_fail)
qed

theorem txn_done_is_terminal_witness:
  "0 < next_txn example_open_txn \<and> \<not> t_done (txns example_open_txn 0)
   \<and> MemKvTxn_rollback 0 (run [TxnGet 0 ''a''] (step (TxnCommit 0) example_open_txn))
       = (Inl TransactionComplete, run [TxnGet 0 ''a''] (step (TxnCommit 0) example_open_txn))
   \<and> MemKvTxn_commit 0 (run [] (step (TxnRollback 0) example_open_txn))
       = (Inl TransactionComplete, run [] (step (TxnRollback 0) example_open_txn))"
  using txn_done_is_terminal [of 0 example_open_txn "TxnCommit 0" "[TxnGet 0 ''a'']"]
    txn_done_is_terminal [of 0 example_open_txn "TxnRollback 0" "[]"]
  by (simp add: example_open_txn_eval)

subsection \<open>Buffered writes\<close>














lemmas eval_defs = getPool_def background_def on_pool_def MemKvPool_conn_def
  reset_def upd_conn_def new_conn_def Let_def txn_defs conn_defs read_temp_def read_prop_def
  temp_assign_def store_assign_def assign_def read_found_def proto_value_def
  find_in_temp_def find_in_store_def find_in_ObjectPrototype_def ObjectPrototype_prop_def
  ObjectPrototype_methods_def







subsection \<open>The prototype link at work\<close>

text \<open>
  What the accessor does on the store \<open>{ a: 'b' }\<close> with a transaction open: the store
  inherits the members of \<open>Object.prototype\<close>; writing \<open>null\<close> to \<open>__proto__\<close> inside the
  transaction cuts \<open>#temp\<close> off the store, so that the key \<open>a\<close> reads as \<open>undefined\<close> and
  the next write to \<open>__proto__\<close> makes an own property; writing \<open>null\<close> to \<open>__proto__\<close>
  through the connection cuts the store off \<open>Object.prototype\<close>; the store cannot
  become its own prototype, neither directly nor at \<open>commit()\<close>, nor take an object
  that inherits from it; and once an object of the caller is the prototype of the
  store, a key that the store does not own is looked up inside that object.
\<close>

lemma proto_link_examples:
  "fst (MemKvConn_get 0 ''toString'' example_open_txn) = Inr (JObj (Builtin ''toString''))"
  "fst (MemKvTxn_get 0 ''constructor'' example_open_txn) = Inr (JObj (Builtin ''constructor''))"
  "fst (MemKvTxn_get 0 ''missing'' example_open_txn) = Inr Undefined"
  "fst (MemKvTxn_get 0 ''a'' (step (TxnSet 0 ''__proto__'' Null) example_open_txn)) = Inr Undefined"
  "fst (MemKvTxn_get 0 ''__proto__'' (step (TxnSet 0 ''__proto__'' Null) example_open_txn))
     = Inr Undefined"
  "fst (MemKvTxn_get 0 ''__proto__''
     (run [TxnSet 0 ''__proto__'' Null, TxnSet 0 ''__proto__'' (JStr ''x'')] example_open_txn))
     = Inr (JStr ''x'')"
  "fst (MemKvTxn_get 0 ''a'' (step (TxnSet 0 ''__proto__'' (JObj ObjectPrototype)) example_open_txn))
     = Inr Undefined"
  "fst (MemKvConn_get 0 ''toString'' (step (ConnSet 0 ''__proto__'' Null) example_open_txn))
     = Inr Undefined"
  "fst (MemKvConn_set 0 ''__proto__'' (JObj StoreRef) example_open_txn) = Inl CyclicProto"
  "fst (MemKvTxn_commit 0 (step (TxnSet 0 ''__proto__'' (JObj StoreRef)) example_open_txn))
     = Inl CyclicProto"
  "fst (MemKvConn_set 0 ''__proto__'' (JObj (Heir 1)) example_open_txn) = Inl CyclicProto"
  "store_proto (step (ConnSet 0 ''__proto__'' (JObj (Other 1))) example_open_txn)
     = Some (Other 1)"
  "fst (MemKvConn_get 0 ''a'' (step (ConnSet 0 ''__proto__'' (JObj (Other 1))) example_open_txn))
     = Inr (JStr ''b'')"
  "fst (MemKvConn_get 0 ''x'' (step (ConnSet 0 ''__proto__'' (JObj (Other 1))) example_open_txn))
     = Inl OutOfModel"
  by (simp_all add: example_open_txn_def eval_defs)

section \<open>Properties of connections and the pool\<close>

lemmas pool_eval = eval_defs MemKvPool_close_def close_loop.simps MemKvConn_close.simps
  MemKvPool_return.simps handle_resolve.simps splice1_def upd_req_def clr_off_def clr_onCancel_def
  cancelableConnRequest_def newPromiseHandle_def req_onCancel_def cancel_def MemKvConn_txnDone_def
  promise_resolve_def promise_reject_def

text \<open>
  C3. \<open>MemKvConn.beginTxn\<close> never assigns the field \<open>#txn\<close>, so \<open>close()\<close> never sees
  an open transaction. In the state \<open>example_open_txn\<close> transaction 0 of connection 0
  is open (not done); \<open>close()\<close> on connection 0 nevertheless returns the resolved
  promise at once and the connection has moved from the active list to the idle list.
\<close>

theorem conn_close_does_not_wait_for_open_txn:
  "\<not> t_done (txns example_open_txn 0) \<and> onComplete (txns example_open_txn 0) = 0
   \<and> active (pool example_open_txn) = [0]
   \<and> txn (conns (pool example_open_txn) 0) = None
   \<and> fst (MemKvConn_close 0 (pool example_open_txn)) = Inr ResolvedNow
   \<and> p_pool (snd (MemKvConn_close 0 (pool example_open_txn))) = [0]
   \<and> active (snd (MemKvConn_close 0 (pool example_open_txn))) = []"
  by (simp add: example_open_txn_def pool_eval)

text \<open>
  C8. With two active connections and no queued request, \<open>MemKvPool.close\<close> closes
  connection 0, whose return splices it out of \<open>#active\<close>; the array iterator then
  stands at index 1 of an array of length 1 and the loop ends. Connection 1 is never
  asked to close: it stays active and open, while the only awaited promise is resolved.
\<close>

theorem pool_close_skips_active_conn:
  "active (pool example_two_active) = [0, 1]
   \<and> fst (MemKvPool_close (pool example_two_active)) = Inr [ResolvedNow]
   \<and> p_closed (snd (MemKvPool_close (pool example_two_active)))
   \<and> closed (conns (snd (MemKvPool_close (pool example_two_active))) 0)
   \<and> \<not> closed (conns (snd (MemKvPool_close (pool example_two_active))) 1)
   \<and> active (snd (MemKvPool_close (pool example_two_active))) = [1]
   \<and> p_pool (snd (MemKvPool_close (pool example_two_active))) = [0]"
  by (simp add: example_two_active_def pool_eval)

text \<open>
  C9. \<open>MemKvConn.beginTxn\<close> does not look at the context. A key-value transaction
  begun under a context with canceler 0 subscribes no listener; when the canceler
  fires, the transaction is not rolled back: it is still open, and a later \<open>commit()\<close>
  writes its buffered value to the store.
\<close>

theorem kv_txn_not_rolled_back_on_cancel:
  "canceler cancelable = Some 0
   \<and> cancelers (pool example_cancelable_txn) 0 = []
   \<and> step (Cancel 0) example_cancelable_txn = example_cancelable_txn
   \<and> \<not> t_done (txns (step (Cancel 0) example_cancelable_txn) 0)
   \<and> fst (MemKvTxn_commit 0 (step (Cancel 0) example_cancelable_txn)) = Inr ResolvedNow
   \<and> store (snd (MemKvTxn_commit 0 (step (Cancel 0) example_cancelable_txn))) ''a''
       = Some (JStr ''c'')"
  by (simp add: example_cancelable_txn_def cancelable_def pool_eval)

section \<open>Properties of the transaction coordinator\<close>

lemmas run_eval = pool_eval kv_env_def conn_ctx_def example_one_conn_def cb_set_then_throw_def
  cb_commit_then_throw_def withStorageApi_def getStorageApi_def pick_callback_def

text \<open>
  C5. When \<open>runTransaction\<close> begins a new transaction (the bound API is not in mode
  \<open>txn\<close> and \<open>beginTxn\<close> succeeds): if the callback resolves, \<open>commit()\<close> is called on
  the state the callback left, and if that succeeds so does the call; if the callback
  rejects with \<open>e\<close>, \<open>rollback()\<close> is called, and the caller sees \<open>e\<close> when the rollback
  succeeds and the error of the rollback when it fails.
\<close>

theorem runTransaction_commit_or_rollback:
  assumes "getStorageApi ctx = Some api"
    and "api_mode env api \<noteq> ModeTxn"
    and "pick_callback fnOrOpts maybeFn = Inr (fn, opts)"
    and "api_beginTxn env api ctx opts s = (Inr tx, s1)"
  shows "(fn (withStorageApi ctx tx) tx s1 = (Inr (), s2) \<longrightarrow>
            runTransaction env ctx fnOrOpts maybeFn s =
              (case txn_commit env tx s2 of
                 (Inl e, s3) \<Rightarrow> catch_rollback env tx e s3
               | (Inr u, s3) \<Rightarrow> (Inr (), s3)))
    \<and> (fn (withStorageApi ctx tx) tx s1 = (Inr (), s2) \<and> txn_commit env tx s2 = (Inr (), s3) \<longrightarrow>
            runTransaction env ctx fnOrOpts maybeFn s = (Inr (), s3))
    \<and> (fn (withStorageApi ctx tx) tx s1 = (Inl e, s2) \<and> txn_rollback env tx s2 = (Inr (), s3) \<longrightarrow>
            runTransaction env ctx fnOrOpts maybeFn s = (Inl e, s3))
    \<and> (fn (withStorageApi ctx tx) tx s1 = (Inl e, s2) \<and> txn_rollback env tx s2 = (Inl e', s3) \<longrightarrow>
            runTransaction env ctx fnOrOpts maybeFn s = (Inl e', s3))"
  using assms
  by (simp add: runTransaction_def catch_rollback_def Let_def)

theorem runTransaction_commit_or_rollback_witness:
  "getStorageApi conn_ctx = Some (ConnApi 0)
   \<and> api_mode kv_env (ConnApi 0) \<noteq> ModeTxn
   \<and> fst (api_beginTxn kv_env (ConnApi 0) conn_ctx None example_one_conn) = Inr (TxnApi 0)
   \<and> fst (runTransaction kv_env conn_ctx (Callback cb_set) None example_one_conn) = Inr ()
   \<and> store (snd (runTransaction kv_env conn_ctx (Callback cb_set) None example_one_conn))
        = [''a'' \<mapsto> JStr ''c'']
   \<and> fst (runTransaction kv_env conn_ctx (Callback cb_set_then_throw) None example_one_conn)
        = Inl (UserError ''Failing on purpose'')
   \<and> store (snd (runTransaction kv_env conn_ctx (Callback cb_set_then_throw) None example_one_conn))
        = [''a'' \<mapsto> JStr ''b'']
   \<and> fst (runTransaction kv_env conn_ctx (Opts None) (Some cb_commit_then_throw) example_one_conn)
        = Inl TransactionComplete"
proof -
  let ?s1 = "snd (api_beginTxn kv_env (ConnApi 0) conn_ctx None example_one_conn)"
  let ?c = "withStorageApi conn_ctx (TxnApi 0)"
  have api: "getStorageApi conn_ctx = Some (ConnApi 0)"
    and mode: "api_mode kv_env (ConnApi 0) \<noteq> ModeTxn"
    and pick1: "pick_callback (Callback cb_set) None = Inr (cb_set, None)"
    and pick2: "pick_callback (Callback cb_set_then_throw) None = Inr (cb_set_then_throw, None)"
    and pick3: "pick_callback (Opts None) (Some cb_commit_then_throw) = Inr (cb_commit_then_throw, None)"
    by (simp_all add: run_eval)
  have bt: "api_beginTxn kv_env (ConnApi 0) conn_ctx None example_one_conn = (Inr (TxnApi 0), ?s1)"
    by (simp add: run_eval)
  have ok: "cb_set ?c (TxnApi 0) ?s1 = (Inr (), snd (cb_set ?c (TxnApi 0) ?s1))"
    by (simp add: run_eval)
  have co: "txn_commit kv_env (TxnApi 0) (snd (cb_set ?c (TxnApi 0) ?s1))
      = (Inr (), snd (txn_commit kv_env (TxnApi 0) (snd (cb_set ?c (TxnApi 0) ?s1))))"
    by (simp add: run_eval)
  have st1: "store (snd (txn_commit kv_env (TxnApi 0) (snd (cb_set ?c (TxnApi 0) ?s1))))
      = [''a'' \<mapsto> JStr ''c'']"
    by (simp add: run_eval)
  have th: "cb_set_then_throw ?c (TxnApi 0) ?s1
      = (Inl (UserError ''Failing on purpose''), snd (cb_set_then_throw ?c (TxnApi 0) ?s1))"
    by (simp add: run_eval)
  have rb: "txn_rollback kv_env (TxnApi 0) (snd (cb_set_then_throw ?c (TxnApi 0) ?s1))
      = (Inr (), snd (txn_rollback kv_env (TxnApi 0) (snd (cb_set_then_throw ?c (TxnApi 0) ?s1))))"
    by (simp add: run_eval)
  have st2: "store (snd (txn_rollback kv_env (TxnApi 0) (snd (cb_set_then_throw ?c (TxnApi 0) ?s1))))
      = [''a'' \<mapsto> JStr ''b'']"
    by (simp add: run_eval)
  have ct: "cb_commit_then_throw ?c (TxnApi 0) ?s1
      = (Inl (UserError ''Failing on purpose''), snd (cb_commit_then_throw ?c (TxnApi 0) ?s1))"
    by (simp add: run_eval)
  have rf: "txn_rollback kv_env (TxnApi 0) (snd (cb_commit_then_throw ?c (TxnApi 0) ?s1))
      = (Inl TransactionComplete,
         snd (txn_rollback kv_env (TxnApi 0) (snd (cb_commit_then_throw ?c (TxnApi 0) ?s1))))"
    by (simp add: run_eval)
  have r1: "runTransaction kv_env conn_ctx (Callback cb_set) None example_one_conn
      = (Inr (), snd (txn_commit kv_env (TxnApi 0) (snd (cb_set ?c (TxnApi 0) ?s1))))"
    using runTransaction_commit_or_rollback [OF api mode pick1 bt] ok co by blast
  have r2: "runTransaction kv_env conn_ctx (Callback cb_set_then_throw) None example_one_conn
      = (Inl (UserError ''Failing on purpose''),
         snd (txn_rollback kv_env (TxnApi 0) (snd (cb_set_then_throw ?c (TxnApi 0) ?s1))))"
    using runTransaction_commit_or_rollback [OF api mode pick2 bt] th rb by blast
  have r3: "runTransaction kv_env conn_ctx (Opts None) (Some cb_commit_then_throw) example_one_conn
      = (Inl TransactionComplete,
         snd (txn_rollback kv_env (TxnApi 0) (snd (cb_commit_then_throw ?c (TxnApi 0) ?s1))))"
    using runTransaction_commit_or_rollback [OF api mode pick3 bt] ct rf by blast
  have b: "fst (api_beginTxn kv_env (ConnApi 0) conn_ctx None example_one_conn) = Inr (TxnApi 0)"
    by (simp add: run_eval)
  show ?thesis
    unfolding r1 r2 r3 using api mode b st1 st2 by simp
qed

text \<open>
  C6. When the API bound to the context is in mode \<open>txn\<close>, \<open>runTransaction\<close> is the call
  of the callback on the very same context and transaction: the result does not depend
  on what \<open>beginTxn\<close>, \<open>commit\<close> or \<open>rollback\<close> of the environment do, so none of them
  is called. A \<open>runTransaction\<close> nested in the callback of an outer \<open>runTransaction\<close>
  that began the transaction behaves as if its callback had been passed to the outer
  call directly: only the outer call commits or rolls back.
\<close>

theorem runTransaction_reuses_txn:
  assumes "getStorageApi ctx = Some api"
    and "api_mode env api = ModeTxn"
    and "pick_callback fnOrOpts maybeFn = Inr (fn, opts)"
  shows "runTransaction env ctx fnOrOpts maybeFn s = fn ctx api s
    \<and> (api_mode env' = api_mode env \<longrightarrow>
          runTransaction env' ctx fnOrOpts maybeFn s = runTransaction env ctx fnOrOpts maybeFn s)
    \<and> (getStorageApi ctx0 = Some api0 \<and> api_mode env api0 \<noteq> ModeTxn
          \<and> api_beginTxn env api0 ctx0 None s0 = (Inr api, s1) \<longrightarrow>
          runTransaction env ctx0
            (Callback (\<lambda>c t. runTransaction env c fnOrOpts maybeFn)) None s0
          = runTransaction env ctx0 (Callback fn) None s0)"
  using assms
  by (simp add: runTransaction_def pick_callback_def Let_def withStorageApi_def getStorageApi_def)


theorem runTransaction_reuses_txn_witness:
  "getStorageApi txn_ctx = Some (TxnApi 0)
   \<and> api_mode kv_env (TxnApi 0) = ModeTxn
   \<and> runTransaction kv_env txn_ctx (Callback cb_set) None example_open_txn
        = cb_set txn_ctx (TxnApi 0) example_open_txn
   \<and> \<not> t_done (txns (snd (runTransaction kv_env txn_ctx (Callback cb_set) None example_open_txn)) 0)
   \<and> store (snd (runTransaction kv_env txn_ctx (Callback cb_set) None example_open_txn))
        = [''a'' \<mapsto> JStr ''b'']
   \<and> api_mode (kv_env\<lparr>txn_commit := \<lambda>t w. (Inl PoolClosed, w)\<rparr>) = api_mode kv_env
   \<and> runTransaction (kv_env\<lparr>txn_commit := \<lambda>t w. (Inl PoolClosed, w)\<rparr>) txn_ctx
          (Callback cb_set) None example_open_txn
        = runTransaction kv_env txn_ctx (Callback cb_set) None example_open_txn
   \<and> api_beginTxn kv_env (ConnApi 0) conn_ctx None example_one_conn = (Inr (TxnApi 0), example_open_txn)
   \<and> runTransaction kv_env conn_ctx
          (Callback (\<lambda>c t. runTransaction kv_env c (Callback cb_set) None)) None example_one_conn
        = runTransaction kv_env conn_ctx (Callback cb_set) None example_one_conn"
proof -
  have api: "getStorageApi txn_ctx = Some (TxnApi 0)"
    and mode: "api_mode kv_env (TxnApi 0) = ModeTxn"
    and pick: "pick_callback (Callback cb_set) None = Inr (cb_set, None)"
    and api0: "getStorageApi conn_ctx = Some (ConnApi 0)"
    and mode0: "api_mode kv_env (ConnApi 0) \<noteq> ModeTxn"
    and m': "api_mode (kv_env\<lparr>txn_commit := \<lambda>t w. (Inl PoolClosed, w)\<rparr>) = api_mode kv_env"
    by (simp_all add: txn_ctx_def run_eval)
  have bt: "api_beginTxn kv_env (ConnApi 0) conn_ctx None example_one_conn
      = (Inr (TxnApi 0), example_open_txn)"
    by (simp add: example_open_txn_def run_eval)
  note th = runTransaction_reuses_txn [OF api mode pick,
      where env' = "kv_env\<lparr>txn_commit := \<lambda>t w. (Inl PoolClosed, w)\<rparr>"
        and ?ctx0.0 = conn_ctx and ?api0.0 = "ConnApi 0" and ?s0.0 = example_one_conn
        and ?s1.0 = example_open_txn]
  have nd: "\<not> t_done (txns (snd (cb_set txn_ctx (TxnApi 0) example_open_txn)) 0)"
    and st: "store (snd (cb_set txn_ctx (TxnApi 0) example_open_txn)) = [''a'' \<mapsto> JStr ''b'']"
    by (simp_all add: example_open_txn_def run_eval)
  have e1: "runTransaction kv_env txn_ctx (Callback cb_set) None example_open_txn
      = cb_set txn_ctx (TxnApi 0) example_open_txn"
    using th by blast
  have e2: "runTransaction (kv_env\<lparr>txn_commit := \<lambda>t w. (Inl PoolClosed, w)\<rparr>) txn_ctx
          (Callback cb_set) None example_open_txn
        = runTransaction kv_env txn_ctx (Callback cb_set) None example_open_txn"
    using th m' by blast
  have e3: "runTransaction kv_env conn_ctx
          (Callback (\<lambda>c t. runTransaction kv_env c (Callback cb_set) None)) None example_one_conn
        = runTransaction kv_env conn_ctx (Callback cb_set) None example_one_conn"
    using th api0 mode0 bt by blast
  show ?thesis
    using api mode m' bt e2 e3 nd st unfolding e1 by simp
qed

section \<open>Invariants of the pool\<close>

lemma return_grants_aux:
  "reqQueue p = q \<Longrightarrow> indexOf (active p) c = Some ix \<Longrightarrow> txn (conns p c) = None \<Longrightarrow>
   fst (MemKvPool_return c p) = Inr () \<and> granted c ix p (snd (MemKvPool_return c p))"
proof (induction q arbitrary: p)
  case Nil
  then show ?case
    by (simp add: MemKvPool_return.simps granted_def)
next
  case (Cons r rest)
  let ?p1 = "reset c True (p\<lparr>reqQueue := rest\<rparr>)"
  have ret: "MemKvPool_return c p = handle_resolve r c ?p1"
    using Cons.prems by (simp add: MemKvPool_return.simps)
  show ?case
  proof (cases "canceled p r")
    case True
    then obtain clr where clr: "r_clr (reqs p r) = Some clr" and to: "timedOut (reqs p r)"
      by (auto simp: canceled_def)
    let ?p2 = "upd_conn c (\<lambda>x. x\<lparr>closed := True\<rparr>) ?p1"
    have q2: "reqQueue ?p2 = rest" and a2: "indexOf (active ?p2) c = Some ix"
      and t2: "txn (conns ?p2 c) = None" and r2: "reqs ?p2 = reqs p"
      and pp: "p_pool ?p2 = p_pool p" "active ?p2 = active p"
      using Cons.prems by (simp_all add: reset_def upd_conn_def)
    have cl: "MemKvConn_close c ?p1 =
        (case MemKvPool_return c ?p2 of (Inl e, p3) \<Rightarrow> (Inl e, p3) | (Inr u, p3) \<Rightarrow> (Inr ResolvedNow, p3))"
      using Cons.prems
      by (subst MemKvConn_close.simps) (simp add: reset_def upd_conn_def Let_def)
    have hr: "handle_resolve r c ?p1 =
        (case MemKvConn_close c ?p1 of (Inl e, p3) \<Rightarrow> (Inl e, p3) | (Inr u, p3) \<Rightarrow> (Inr (), p3))"
      using clr to by (subst handle_resolve.simps) (simp add: reset_def upd_conn_def)
    from Cons.IH [OF q2 a2 t2]
    have ih: "fst (MemKvPool_return c ?p2) = Inr ()"
      "granted c ix ?p2 (snd (MemKvPool_return c ?p2))" by simp_all
    have same: "canceled ?p2 = canceled p"
      by (rule ext) (simp add: canceled_def r2)
    have dw: "dropWhile (canceled p) (reqQueue p) = dropWhile (canceled p) rest"
      using Cons.prems(1) True by simp
    obtain u p3 where p3: "MemKvPool_return c ?p2 = (Inr u, p3)"
      using ih(1) by (cases "MemKvPool_return c ?p2") auto
    have res: "MemKvPool_return c p = (Inr (), p3)"
      using ret hr cl p3 by simp
    have "granted c ix p p3 = granted c ix ?p2 p3"
      by (simp only: granted_def same dw q2 r2 pp)
    then have "granted c ix p p3"
      using ih(2) p3 by simp
    with res show ?thesis by simp
  next
    case False
    then have dw: "dropWhile (canceled p) (reqQueue p) = r # rest"
      using Cons.prems(1) by simp
    show ?thesis
      unfolding ret granted_def dw using False Cons.prems
      by (auto simp: handle_resolve.simps canceled_def reset_def upd_conn_def upd_req_def
            clr_off_def split: option.splits)
  qed
qed

lemma conn_now:
  assumes "\<not> p_closed p" and "p_pool p \<noteq> [] \<or> int (length (active p)) < maxCnt p"
  shows "\<exists>c. fst (MemKvPool_conn ctx p) = Inr (ConnNow c)
     \<and> c = (if p_pool p \<noteq> [] then hd (p_pool p) else next_conn p)
     \<and> active (snd (MemKvPool_conn ctx p)) = active p @ [c]
     \<and> p_pool (snd (MemKvPool_conn ctx p)) = tl (p_pool p)
     \<and> reqQueue (snd (MemKvPool_conn ctx p)) = reqQueue p
     \<and> \<not> closed (conns (snd (MemKvPool_conn ctx p)) c)
     \<and> keepOpen (conns (snd (MemKvPool_conn ctx p)) c)"
  using assms
  by (auto simp: MemKvPool_conn_def reset_def upd_conn_def Let_def split: list.splits)

lemma conn_later:
  assumes "\<not> p_closed p" and "p_pool p = []" and "\<not> int (length (active p)) < maxCnt p"
  shows "fst (MemKvPool_conn ctx p) = Inr (ConnLater (next_req p))
     \<and> reqQueue (snd (MemKvPool_conn ctx p)) = reqQueue p @ [next_req p]
     \<and> r_promise (reqs (snd (MemKvPool_conn ctx p)) (next_req p)) = Pending
     \<and> active (snd (MemKvPool_conn ctx p)) = active p
     \<and> p_pool (snd (MemKvPool_conn ctx p)) = p_pool p"
  using assms
  by (auto simp: MemKvPool_conn_def cancelableConnRequest_def newPromiseHandle_def clr_onCancel_def
        Let_def split: option.splits)

lemma conn_frame:
  "maxCnt (snd (MemKvPool_conn ctx p)) = maxCnt p"
  "p_closed (snd (MemKvPool_conn ctx p)) = p_closed p"
  "length (p_pool (snd (MemKvPool_conn ctx p))) \<le> length (p_pool p)"
  by (cases "p_closed p";
      simp add: MemKvPool_conn_def cancelableConnRequest_def newPromiseHandle_def clr_onCancel_def
        reset_def upd_conn_def Let_def split: option.splits list.splits)+

lemma conn_all_immediate:
  "\<not> p_closed p \<Longrightarrow> int (length (active p)) + int (length ctxs) \<le> maxCnt p \<Longrightarrow>
   (\<forall>r\<in>set (fst (conn_all ctxs p)). \<exists>c. r = Inr (ConnNow c))
   \<and> length (fst (conn_all ctxs p)) = length ctxs
   \<and> length (active (snd (conn_all ctxs p))) = length (active p) + length ctxs
   \<and> \<not> p_closed (snd (conn_all ctxs p))
   \<and> maxCnt (snd (conn_all ctxs p)) = maxCnt p
   \<and> length (p_pool (snd (conn_all ctxs p))) \<le> length (p_pool p)
   \<and> reqQueue (snd (conn_all ctxs p)) = reqQueue p"
proof (induction ctxs arbitrary: p)
  case Nil
  then show ?case by simp
next
  case (Cons ctx ctxs)
  obtain p1 where p1: "p1 = snd (MemKvPool_conn ctx p)"
    by simp
  have lt: "p_pool p \<noteq> [] \<or> int (length (active p)) < maxCnt p"
    using Cons.prems(2) by simp
  from conn_now [OF Cons.prems(1) lt, of ctx]
  obtain c where c0: "fst (MemKvPool_conn ctx p) = Inr (ConnNow c)"
    and c': "active p1 = active p @ [c]" "reqQueue p1 = reqQueue p"
    unfolding p1 by blast
  have c: "MemKvPool_conn ctx p = (Inr (ConnNow c), p1)"
    "active p1 = active p @ [c]" "reqQueue p1 = reqQueue p"
    using c0 c' p1 by (simp_all add: prod_eq_iff)
  have open1: "\<not> p_closed p1"
    using Cons.prems(1) conn_frame(2) [of ctx p] by (simp add: p1)
  have max1: "maxCnt p1 = maxCnt p"
    and idle1: "length (p_pool p1) \<le> length (p_pool p)"
    unfolding p1 by (rule conn_frame)+
  have cap: "int (length (active p1)) + int (length ctxs) \<le> maxCnt p1"
    using Cons.prems(2) c(2) max1 by simp
  obtain rs p2 where all: "conn_all ctxs p1 = (rs, p2)"
    by (cases "conn_all ctxs p1")
  from Cons.IH [OF open1 cap] all c max1 idle1 show ?case
    by simp
qed

lemma frame_refl: "frame p p"
  by (simp add: frame_def)

lemma frame_trans: "frame p p1 \<Longrightarrow> frame p1 p2 \<Longrightarrow> frame p p2"
  by (auto simp: frame_def)

lemma promise_resolve_settled: "s \<noteq> Pending \<Longrightarrow> promise_resolve v s = s"
  by (cases s) (simp_all add: promise_resolve_def)

lemma promise_reject_settled: "s \<noteq> Pending \<Longrightarrow> promise_reject e s = s"
  by (cases s) (simp_all add: promise_reject_def)

lemma close_return_resolve_frame:
  "frame p (snd (MemKvConn_close c p))"
  "frame p (snd (MemKvPool_return c p))"
  "frame p (snd (handle_resolve r c p))"
proof (induction c p and c p and r c p rule: MemKvConn_close_MemKvPool_return_handle_resolve.induct)
  case (1 c p)
  let ?p1 = "upd_conn c (\<lambda>x. x\<lparr>closed := True\<rparr>) p"
  have f1: "frame p ?p1"
    by (simp add: frame_def upd_conn_def)
  show ?case
  proof (cases "closed (conns p c)")
    case True
    then show ?thesis
      by (simp add: MemKvConn_close.simps frame_refl)
  next
    case False
    show ?thesis
    proof (cases "txn (conns ?p1 c) \<noteq> None")
      case True
      with False show ?thesis
        by (subst MemKvConn_close.simps)
           (auto simp: frame_def upd_conn_def Let_def split: option.splits)
    next
      case nt: False
      have "frame ?p1 (snd (MemKvPool_return c ?p1))"
        using "1" [OF False refl nt] .
      then have "frame p (snd (MemKvPool_return c ?p1))"
        using f1 frame_trans by blast
      moreover have "snd (MemKvConn_close c p) = snd (MemKvPool_return c ?p1)"
        using False nt
        by (subst MemKvConn_close.simps) (simp add: Let_def split: prod.splits sum.splits)
      ultimately show ?thesis by simp
    qed
  qed
next
  case (2 c p)
  show ?case
  proof (cases "indexOf (active p) c")
    case None
    then show ?thesis by (simp add: MemKvPool_return.simps frame_refl)
  next
    case (Some ix)
    show ?thesis
    proof (cases "reqQueue p")
      case Nil
      with Some show ?thesis
        by (simp add: MemKvPool_return.simps frame_def)
    next
      case (Cons r rest)
      let ?p1 = "reset c True (p\<lparr>reqQueue := rest\<rparr>)"
      have "frame p ?p1"
        by (simp add: frame_def reset_def upd_conn_def)
      moreover have "frame ?p1 (snd (handle_resolve r c ?p1))"
        using "2" [OF Some Cons] .
      ultimately have "frame p (snd (handle_resolve r c ?p1))"
        using frame_trans by blast
      with Some Cons show ?thesis
        by (simp add: MemKvPool_return.simps)
    qed
  qed
next
  case (3 r c p)
  show ?case
  proof (cases "r_clr (reqs p r)")
    case None
    then show ?thesis
      by (simp add: handle_resolve.simps frame_def upd_req_def promise_resolve_settled)
  next
    case (Some clr)
    show ?thesis
    proof (cases "timedOut (reqs p r)")
      case True
      have "frame p (snd (MemKvConn_close c p))"
        using "3" [OF Some True] .
      moreover have "snd (handle_resolve r c p) = snd (MemKvConn_close c p)"
        using Some True by (simp add: handle_resolve.simps split: prod.splits sum.splits)
      ultimately show ?thesis by simp
    next
      case False
      with Some show ?thesis
        by (simp add: handle_resolve.simps frame_def upd_req_def clr_off_def promise_resolve_settled)
    qed
  qed
qed

lemma close_loop_frame: "frame p (snd (close_loop i promises p))"
proof (induction i promises p rule: close_loop.induct)
  case (1 i promises p)
  show ?case
  proof (cases "i < length (active p)")
    case False
    then show ?thesis
      by (subst close_loop.simps) (simp add: frame_refl)
  next
    case True
    obtain x p1 where x: "MemKvConn_close (active p ! i) p = (x, p1)"
      by (cases "MemKvConn_close (active p ! i) p")
    have f1: "frame p p1"
      using close_return_resolve_frame(1) [of p "active p ! i"] x by simp
    show ?thesis
    proof (cases x)
      case (Inl e)
      with True x f1 show ?thesis
        by (subst close_loop.simps) simp
    next
      case (Inr pr)
      have "frame p1 (snd (close_loop (Suc i) (promises @ [pr]) p1))"
        using "1" [OF True x [symmetric] Inr] .
      with f1 have "frame p (snd (close_loop (Suc i) (promises @ [pr]) p1))"
        using frame_trans by blast
      with True x Inr show ?thesis
        by (subst close_loop.simps) simp
    qed
  qed
qed

lemma pool_close_frame: "frame p (snd (MemKvPool_close p))"
proof (cases "p_closed p")
  case True
  then show ?thesis by (simp add: MemKvPool_close_def frame_refl)
next
  case False
  have "frame p (p\<lparr>p_closed := True, p_pool := []\<rparr>)"
    by (simp add: frame_def)
  then show ?thesis
    using False close_loop_frame [of "p\<lparr>p_closed := True, p_pool := []\<rparr>" 0 "[]"] frame_trans
    by (auto simp: MemKvPool_close_def)
qed

lemma txnDone_frame: "frame p (snd (MemKvConn_txnDone c p))"
proof -
  let ?p1 = "upd_conn c (\<lambda>x. x\<lparr>txn := None\<rparr>) p"
  have f1: "frame p ?p1"
    by (simp add: frame_def upd_conn_def)
  show ?thesis
  proof (cases "waitClose (conns ?p1 c)")
    case (Some wc)
    let ?p2 = "upd_conn c (\<lambda>x. x\<lparr>waitClose := None\<rparr>) ?p1"
    have "frame ?p1 ?p2"
      by (simp add: frame_def upd_conn_def)
    with f1 have f2: "frame p ?p2"
      using frame_trans by blast
    obtain x p3 where x: "MemKvPool_return c ?p2 = (x, p3)"
      by (cases "MemKvPool_return c ?p2")
    have "frame ?p2 p3"
      using close_return_resolve_frame(2) [of ?p2 c] x by simp
    with f2 have f3: "frame p p3"
      using frame_trans by blast
    have "frame p3 (p3\<lparr>barriers := (barriers p3)(wc := promise_resolve () (barriers p3 wc))\<rparr>)"
      by (simp add: frame_def)
    with f3 have "frame p (p3\<lparr>barriers := (barriers p3)(wc := promise_resolve () (barriers p3 wc))\<rparr>)"
      using frame_trans by blast
    with Some x f3 show ?thesis
      by (cases x) (simp_all add: MemKvConn_txnDone_def Let_def)
  next
    case None
    obtain x p2 where x: "MemKvConn_close c ?p1 = (x, p2)"
      by (cases "MemKvConn_close c ?p1")
    have "frame ?p1 p2"
      using close_return_resolve_frame(1) [of ?p1 c] x by simp
    with f1 have "frame p p2"
      using frame_trans by blast
    with None x f1 show ?thesis
      by (cases x) (simp_all add: MemKvConn_txnDone_def Let_def)
  qed
qed

lemma req_onCancel_frame: "frame p (req_onCancel r p)"
  by (auto simp: frame_def req_onCancel_def clr_off_def upd_req_def Let_def promise_reject_settled
        split: option.splits)

lemma fold_onCancel_frame: "frame p (fold req_onCancel rs p)"
proof (induction rs arbitrary: p)
  case Nil
  show ?case by (simp add: frame_refl)
next
  case (Cons r rs)
  have "frame p (req_onCancel r p)" by (rule req_onCancel_frame)
  moreover have "frame (req_onCancel r p) (fold req_onCancel rs (req_onCancel r p))"
    by (rule Cons.IH)
  ultimately show ?case
    using frame_trans by auto
qed

lemma MemKvTxn_close_pool: "pool (snd (MemKvTxn_close t w)) = snd (MemKvConn_txnDone (onComplete (txns w t)) (pool w))"
  by (auto simp: MemKvTxn_close_def split: prod.splits sum.splits option.splits)

text \<open>A commit whose replay throws leaves the pool alone; any other ends in \<open>#txnDone\<close>.\<close>

lemma commit_pool:
  "pool (snd (MemKvTxn_commit t w)) = pool w
   \<or> pool (snd (MemKvTxn_commit t w)) = snd (MemKvConn_txnDone (onComplete (txns w t)) (pool w))"
  by (auto simp: MemKvTxn_commit_def Let_def MemKvTxn_close_pool upd_txn_def
      split: prod.splits sum.splits dest!: replay_frame_dest)

lemma step_frame:
  assumes "\<forall>ctx. a \<noteq> PoolConn ctx"
  shows "frame (pool w) (pool (step a w))"
proof (cases a)
  case (PoolConn ctx)
  with assms show ?thesis by simp
next
  case PoolClose
  then show ?thesis by (simp add: on_pool_def pool_close_frame)
next
  case (ConnReset c k)
  then show ?thesis by (simp add: on_pool_def reset_def upd_conn_def frame_def)
next
  case (ConnClose c)
  then show ?thesis by (simp add: on_pool_def close_return_resolve_frame)
next
  case (TxnCommit t)
  then show ?thesis
    using txnDone_frame [of "pool w" "onComplete (txns w t)"] commit_pool [of t w]
    by (auto simp: frame_refl)
next
  case (TxnRollback t)
  then show ?thesis
    using txnDone_frame
    by (simp add: MemKvTxn_rollback_def Let_def MemKvTxn_close_pool upd_txn_def frame_refl)
next
  case (Cancel clr)
  then show ?thesis by (simp add: on_pool_def cancel_def fold_onCancel_frame)
qed (simp_all add: conn_defs txn_defs frame_refl Let_def)

lemma dequeues_refl: "dequeues R p p"
  unfolding dequeues_def touches_only_def by (rule exI [of _ 0]) simp

lemma dequeues_same:
  "reqQueue p1 = reqQueue p \<Longrightarrow> reqs p1 = reqs p \<Longrightarrow> cancelers p1 = cancelers p \<Longrightarrow>
   dequeues R p1 p2 \<Longrightarrow> dequeues R p p2"
  by (simp add: dequeues_def touches_only_def)

lemma close_return_resolve_dequeues:
  "dequeues {} p (snd (MemKvConn_close c p))"
  "dequeues {} p (snd (MemKvPool_return c p))"
  "dequeues {r} p (snd (handle_resolve r c p))"
proof (induction c p and c p and r c p rule: MemKvConn_close_MemKvPool_return_handle_resolve.induct)
  case (1 c p)
  let ?p1 = "upd_conn c (\<lambda>x. x\<lparr>closed := True\<rparr>) p"
  show ?case
  proof (cases "closed (conns p c)")
    case True
    then show ?thesis
      by (simp add: MemKvConn_close.simps dequeues_refl)
  next
    case False
    show ?thesis
    proof (cases "txn (conns ?p1 c) \<noteq> None")
      case True
      have "dequeues {} ?p1 (snd (MemKvConn_close c p))"
        unfolding dequeues_def touches_only_def using True False
        by (intro exI [of _ 0])
           (subst (1 2 3) MemKvConn_close.simps,
             auto simp: upd_conn_def Let_def split: option.splits)
      then show ?thesis
        by (rule dequeues_same [rotated -1]) (simp_all add: upd_conn_def)
    next
      case nt: False
      have "dequeues {} ?p1 (snd (MemKvPool_return c ?p1))"
        using "1" [OF False refl nt] .
      then have "dequeues {} p (snd (MemKvPool_return c ?p1))"
        by (rule dequeues_same [rotated -1]) (simp_all add: upd_conn_def)
      moreover have "snd (MemKvConn_close c p) = snd (MemKvPool_return c ?p1)"
        using False nt
        by (subst MemKvConn_close.simps) (simp add: Let_def split: prod.splits sum.splits)
      ultimately show ?thesis by simp
    qed
  qed
next
  case (2 c p)
  show ?case
  proof (cases "indexOf (active p) c")
    case None
    then show ?thesis by (simp add: MemKvPool_return.simps dequeues_refl)
  next
    case (Some ix)
    show ?thesis
    proof (cases "reqQueue p")
      case Nil
      with Some show ?thesis
        unfolding dequeues_def touches_only_def
        by (intro exI [of _ 0]) (simp add: MemKvPool_return.simps)
    next
      case (Cons r rest)
      let ?p1 = "reset c True (p\<lparr>reqQueue := rest\<rparr>)"
      let ?p2 = "snd (handle_resolve r c ?p1)"
      have "dequeues {r} ?p1 ?p2"
        using "2" [OF Some Cons] .
      then obtain k where k: "reqQueue ?p2 = drop k (reqQueue ?p1)"
        "touches_only ({r} \<union> set (take k (reqQueue ?p1))) ?p1 ?p2"
        unfolding dequeues_def by blast
      have q1: "reqQueue ?p1 = rest" "reqs ?p1 = reqs p" "cancelers ?p1 = cancelers p"
        by (simp_all add: reset_def upd_conn_def)
      have "reqQueue ?p2 = drop (Suc k) (reqQueue p)"
        using k(1) q1 Cons by simp
      moreover have "touches_only ({} \<union> set (take (Suc k) (reqQueue p))) p ?p2"
        using k(2) q1 Cons by (simp add: touches_only_def)
      ultimately have "dequeues {} p ?p2"
        unfolding dequeues_def by blast
      with Some Cons show ?thesis
        by (simp add: MemKvPool_return.simps)
    qed
  qed
next
  case (3 r c p)
  show ?case
  proof (cases "r_clr (reqs p r)")
    case None
    then show ?thesis
      unfolding dequeues_def touches_only_def
      by (intro exI [of _ 0]) (simp add: handle_resolve.simps upd_req_def)
  next
    case (Some clr)
    show ?thesis
    proof (cases "timedOut (reqs p r)")
      case True
      have "dequeues {} p (snd (MemKvConn_close c p))"
        using "3" [OF Some True] .
      then have "dequeues {r} p (snd (MemKvConn_close c p))"
        by (auto simp: dequeues_def touches_only_def)
      moreover have "snd (handle_resolve r c p) = snd (MemKvConn_close c p)"
        using Some True by (simp add: handle_resolve.simps split: prod.splits sum.splits)
      ultimately show ?thesis by simp
    next
      case False
      with Some show ?thesis
        unfolding dequeues_def touches_only_def
        by (intro exI [of _ 0]) (simp add: handle_resolve.simps upd_req_def clr_off_def)
    qed
  qed
qed

lemma dequeues_trans:
  assumes "dequeues {} p p1" and "dequeues {} p1 p2"
  shows "dequeues {} p p2"
proof -
  from assms(1) obtain k1 where k1: "reqQueue p1 = drop k1 (reqQueue p)"
    "touches_only (set (take k1 (reqQueue p))) p p1"
    unfolding dequeues_def by auto
  from assms(2) obtain k2 where k2: "reqQueue p2 = drop k2 (reqQueue p1)"
    "touches_only (set (take k2 (reqQueue p1))) p1 p2"
    unfolding dequeues_def by auto
  have "reqQueue p2 = drop (k1 + k2) (reqQueue p)"
    using k1(1) k2(1) by (simp add: add.commute)
  moreover have "set (take (k1 + k2) (reqQueue p))
      = set (take k1 (reqQueue p)) \<union> set (take k2 (reqQueue p1))"
    using k1(1) by (simp add: take_add)
  then have "touches_only ({} \<union> set (take (k1 + k2) (reqQueue p))) p p2"
    using k1(2) k2(2) by (simp add: touches_only_def)
  ultimately show ?thesis
    unfolding dequeues_def by blast
qed

lemma close_loop_dequeues: "dequeues {} p (snd (close_loop i promises p))"
proof (induction i promises p rule: close_loop.induct)
  case (1 i promises p)
  show ?case
  proof (cases "i < length (active p)")
    case False
    then show ?thesis
      by (subst close_loop.simps) (simp add: dequeues_refl)
  next
    case True
    obtain x p1 where x: "MemKvConn_close (active p ! i) p = (x, p1)"
      by (cases "MemKvConn_close (active p ! i) p")
    have f1: "dequeues {} p p1"
      using close_return_resolve_dequeues(1) [of p "active p ! i"] x by simp
    show ?thesis
    proof (cases x)
      case (Inl e)
      with True x f1 show ?thesis
        by (subst close_loop.simps) simp
    next
      case (Inr pr)
      have "dequeues {} p1 (snd (close_loop (Suc i) (promises @ [pr]) p1))"
        using "1" [OF True x [symmetric] Inr] .
      with f1 have "dequeues {} p (snd (close_loop (Suc i) (promises @ [pr]) p1))"
        by (rule dequeues_trans)
      with True x Inr show ?thesis
        by (subst close_loop.simps) simp
    qed
  qed
qed

lemma pool_close_dequeues: "dequeues {} p (snd (MemKvPool_close p))"
proof (cases "p_closed p")
  case True
  then show ?thesis by (simp add: MemKvPool_close_def dequeues_refl)
next
  case False
  have "dequeues {} (p\<lparr>p_closed := True, p_pool := []\<rparr>)
      (snd (close_loop 0 [] (p\<lparr>p_closed := True, p_pool := []\<rparr>)))"
    by (rule close_loop_dequeues)
  then have "dequeues {} p (snd (close_loop 0 [] (p\<lparr>p_closed := True, p_pool := []\<rparr>)))"
    by (rule dequeues_same [rotated -1]) simp_all
  with False show ?thesis
    by (simp add: MemKvPool_close_def)
qed

lemma txnDone_dequeues: "dequeues {} p (snd (MemKvConn_txnDone c p))"
proof -
  let ?p1 = "upd_conn c (\<lambda>x. x\<lparr>txn := None\<rparr>) p"
  show ?thesis
  proof (cases "waitClose (conns ?p1 c)")
    case (Some wc)
    let ?p2 = "upd_conn c (\<lambda>x. x\<lparr>waitClose := None\<rparr>) ?p1"
    obtain x p3 where x: "MemKvPool_return c ?p2 = (x, p3)"
      by (cases "MemKvPool_return c ?p2")
    have "dequeues {} ?p2 p3"
      using close_return_resolve_dequeues(2) [of ?p2 c] x by simp
    then have f3: "dequeues {} p p3"
      by (rule dequeues_same [rotated -1]) (simp_all add: upd_conn_def)
    have "dequeues {} p3 (p3\<lparr>barriers := (barriers p3)(wc := promise_resolve () (barriers p3 wc))\<rparr>)"
      unfolding dequeues_def touches_only_def by (intro exI [of _ 0]) simp
    with f3 have "dequeues {} p (p3\<lparr>barriers := (barriers p3)(wc := promise_resolve () (barriers p3 wc))\<rparr>)"
      by (rule dequeues_trans)
    with Some x f3 show ?thesis
      by (cases x) (simp_all add: MemKvConn_txnDone_def Let_def)
  next
    case None
    obtain x p2 where x: "MemKvConn_close c ?p1 = (x, p2)"
      by (cases "MemKvConn_close c ?p1")
    have "dequeues {} ?p1 p2"
      using close_return_resolve_dequeues(1) [of ?p1 c] x by simp
    then have f2: "dequeues {} p p2"
      by (rule dequeues_same [rotated -1]) (simp_all add: upd_conn_def)
    have f1: "dequeues {} p ?p1"
      by (rule dequeues_same [OF _ _ _ dequeues_refl]) (simp_all add: upd_conn_def)
    from None x f1 f2 show ?thesis
      by (cases x) (simp_all add: MemKvConn_txnDone_def Let_def)
  qed
qed

lemma release_inv:
  assumes "frame p p1" and "dequeues {} p p1" and "pool_inv p"
  shows "pool_inv p1"
proof -
  from assms(2) obtain k where k: "reqQueue p1 = drop k (reqQueue p)"
    "touches_only (set (take k (reqQueue p))) p p1"
    unfolding dequeues_def by auto
  have d: "distinct (take k (reqQueue p) @ drop k (reqQueue p))"
    using assms(3) by (simp add: pool_inv_def)
  have same: "reqs p1 r = reqs p r
      \<and> (\<forall>clr. r \<in> set (cancelers p clr) \<longrightarrow> r \<in> set (cancelers p1 clr))"
    if "r \<in> set (drop k (reqQueue p))" for r
  proof -
    have "r \<notin> set (take k (reqQueue p))"
      using d that unfolding distinct_append by blast
    then show ?thesis
      using k(2) by (simp add: touches_only_def)
  qed
  have "r < next_req p1 \<and> (\<not> canceled p1 r \<longrightarrow> waiting p1 r)
      \<and> (canceled p1 r \<longrightarrow> r_promise (reqs p1 r) = Rejected ContextCanceled)"
    if r: "r \<in> set (reqQueue p1)" for r
  proof -
    have in_q: "r \<in> set (reqQueue p)"
      using r k(1) by (auto dest: in_set_dropD)
    have "r \<in> set (drop k (reqQueue p))"
      using r k(1) by simp
    from same [OF this] in_q assms(1,3) show ?thesis
      by (auto simp: pool_inv_def frame_def canceled_def waiting_def)
  qed
  moreover have "distinct (reqQueue p1)"
    using assms(3) k(1) by (simp add: pool_inv_def)
  moreover have "\<forall>c. txn (conns p1 c) = None"
    using assms(1,3) by (simp add: pool_inv_def frame_def)
  ultimately show ?thesis
    by (simp add: pool_inv_def)
qed

lemma conn_inv: "pool_inv p \<Longrightarrow> pool_inv (snd (MemKvPool_conn ctx p))"
  unfolding pool_inv_def canceled_def waiting_def MemKvPool_conn_def cancelableConnRequest_def
    newPromiseHandle_def clr_onCancel_def reset_def upd_conn_def Let_def new_conn_def
  by (auto split: list.splits option.splits)

lemma req_onCancel_inv: "pool_inv p \<Longrightarrow> pool_inv (req_onCancel r p)"
  unfolding pool_inv_def canceled_def waiting_def req_onCancel_def clr_off_def upd_req_def Let_def
  by (auto simp: promise_reject_def split: option.splits)

lemma fold_onCancel_inv: "pool_inv p \<Longrightarrow> pool_inv (fold req_onCancel rs p)"
  by (induction rs arbitrary: p) (simp_all add: req_onCancel_inv)

lemma step_dequeues:
  assumes "is_release a"
  shows "dequeues {} (pool w) (pool (step a w))"
proof (cases a)
  case PoolClose
  then show ?thesis by (simp add: on_pool_def pool_close_dequeues)
next
  case (ConnClose c)
  then show ?thesis by (simp add: on_pool_def close_return_resolve_dequeues)
next
  case (TxnCommit t)
  then show ?thesis
    using txnDone_dequeues [of "pool w" "onComplete (txns w t)"] commit_pool [of t w]
    by (auto simp: dequeues_refl)
next
  case (TxnRollback t)
  then show ?thesis
    using txnDone_dequeues
    by (simp add: MemKvTxn_rollback_def Let_def MemKvTxn_close_pool upd_txn_def dequeues_refl)
qed (use assms in simp_all)

lemma step_inv: "pool_inv (pool w) \<Longrightarrow> pool_inv (pool (step a w))"
proof (cases "is_release a")
  case True
  assume inv: "pool_inv (pool w)"
  have "\<forall>ctx. a \<noteq> PoolConn ctx"
    using True by auto
  then have "frame (pool w) (pool (step a w))"
    by (rule step_frame)
  then show ?thesis
    using step_dequeues [OF True] inv by (rule release_inv)
next
  case False
  assume inv: "pool_inv (pool w)"
  from False inv show ?thesis
  proof (cases a)
    case (PoolConn ctx)
    with inv show ?thesis by (simp add: on_pool_def conn_inv)
  next
    case (ConnReset c k)
    with inv show ?thesis
      by (simp add: on_pool_def reset_def upd_conn_def pool_inv_def canceled_def waiting_def)
  next
    case (Cancel clr)
    with inv show ?thesis by (simp add: on_pool_def cancel_def fold_onCancel_inv)
  qed (simp_all add: conn_defs txn_defs Let_def)
qed

lemma getPool_inv: "pool_inv (pool (getPool st n))"
  by (simp add: pool_inv_def getPool_def new_conn_def)

lemma run_inv: "pool_inv (pool w) \<Longrightarrow> pool_inv (pool (run acts w))"
  by (induction acts arbitrary: w) (simp_all add: step_inv)

lemma splice1_length_eq: "ix < length xs \<Longrightarrow> Suc (length (splice1 ix xs)) = length xs"
  by (simp add: splice1_def)

lemma close_return_resolve_total:
  "total (snd (MemKvConn_close c p)) = total p"
  "total (snd (MemKvPool_return c p)) = total p"
  "total (snd (handle_resolve r c p)) = total p"
proof (induction c p and c p and r c p rule: MemKvConn_close_MemKvPool_return_handle_resolve.induct)
  case (1 c p)
  then show ?case
    by (subst MemKvConn_close.simps)
       (auto simp: total_def upd_conn_def Let_def split: option.splits prod.splits sum.splits)
next
  case (2 c p)
  show ?case
  proof (cases "indexOf (active p) c")
    case None
    then show ?thesis by (simp add: MemKvPool_return.simps)
  next
    case (Some ix)
    show ?thesis
    proof (cases "reqQueue p")
      case Nil
      with Some show ?thesis
        using splice1_length_eq [OF indexOf_less [OF Some]]
        by (simp add: MemKvPool_return.simps total_def)
    next
      case (Cons r rest)
      with Some "2" [OF Some Cons] show ?thesis
        by (simp add: MemKvPool_return.simps reset_def upd_conn_def total_def)
    qed
  qed
next
  case (3 r c p)
  then show ?case
    by (subst handle_resolve.simps)
       (auto simp: total_def upd_req_def clr_off_def split: option.splits prod.splits sum.splits)
qed

lemma close_loop_total: "total (snd (close_loop i promises p)) = total p"
proof (induction i promises p rule: close_loop.induct)
  case (1 i promises p)
  show ?case
  proof (cases "i < length (active p)")
    case False
    then show ?thesis
      by (subst close_loop.simps) simp
  next
    case True
    obtain x p1 where x: "MemKvConn_close (active p ! i) p = (x, p1)"
      by (cases "MemKvConn_close (active p ! i) p")
    have f1: "total p1 = total p"
      using close_return_resolve_total(1) [of "active p ! i" p] x by simp
    show ?thesis
    proof (cases x)
      case (Inl e)
      with True x f1 show ?thesis
        by (subst close_loop.simps) simp
    next
      case (Inr pr)
      have "total (snd (close_loop (Suc i) (promises @ [pr]) p1)) = total p1"
        using "1" [OF True x [symmetric] Inr] .
      with True x Inr f1 show ?thesis
        by (subst close_loop.simps) simp
    qed
  qed
qed

lemma pool_close_total: "total (snd (MemKvPool_close p)) \<le> total p"
  by (simp add: MemKvPool_close_def close_loop_total) (simp add: total_def)

lemma txnDone_total: "total (snd (MemKvConn_txnDone c p)) = total p"
proof -
  let ?p1 = "upd_conn c (\<lambda>x. x\<lparr>txn := None\<rparr>) p"
  have t1: "total ?p1 = total p" by (simp add: total_def upd_conn_def)
  show ?thesis
  proof (cases "waitClose (conns ?p1 c)")
    case (Some wc)
    let ?p2 = "upd_conn c (\<lambda>x. x\<lparr>waitClose := None\<rparr>) ?p1"
    obtain x p3 where x: "MemKvPool_return c ?p2 = (x, p3)"
      by (cases "MemKvPool_return c ?p2")
    have "total p3 = total ?p2"
      using close_return_resolve_total(2) [of c ?p2] x by simp
    then have "total p3 = total p"
      by (simp add: total_def upd_conn_def)
    with Some x show ?thesis
      by (cases x) (simp_all add: MemKvConn_txnDone_def Let_def total_def)
  next
    case None
    obtain x p2 where x: "MemKvConn_close c ?p1 = (x, p2)"
      by (cases "MemKvConn_close c ?p1")
    have "total p2 = total ?p1"
      using close_return_resolve_total(1) [of c ?p1] x by simp
    with None x t1 show ?thesis
      by (cases x) (simp_all add: MemKvConn_txnDone_def Let_def)
  qed
qed

lemma conn_cap: "cap_inv p \<Longrightarrow> cap_inv (snd (MemKvPool_conn ctx p))"
  unfolding cap_inv_def total_def MemKvPool_conn_def cancelableConnRequest_def
    newPromiseHandle_def clr_onCancel_def reset_def upd_conn_def Let_def
  by (auto split: list.splits option.splits)

lemma fold_onCancel_lists:
  "active (fold req_onCancel rs p) = active p \<and> p_pool (fold req_onCancel rs p) = p_pool p
   \<and> reqQueue (fold req_onCancel rs p) = reqQueue p"
  by (induction rs arbitrary: p)
     (auto simp: req_onCancel_def clr_off_def upd_req_def Let_def split: option.splits)

lemma step_cap: "cap_inv (pool w) \<Longrightarrow> cap_inv (pool (step a w))"
proof (cases a)
  case (PoolConn ctx)
  assume "cap_inv (pool w)"
  with PoolConn show ?thesis by (simp add: on_pool_def conn_cap)
next
  case PoolClose
  assume "cap_inv (pool w)"
  with PoolClose show ?thesis
    using pool_close_total [of "pool w"] step_frame [of a w]
    by (simp add: on_pool_def cap_inv_def frame_def)
next
  case (ConnReset c k)
  assume "cap_inv (pool w)"
  with ConnReset show ?thesis
    by (simp add: on_pool_def reset_def upd_conn_def cap_inv_def total_def)
next
  case (ConnClose c)
  assume "cap_inv (pool w)"
  with ConnClose show ?thesis
    using close_return_resolve_total(1) [of c "pool w"] step_frame [of a w]
    by (simp add: on_pool_def cap_inv_def frame_def)
next
  case (TxnCommit t)
  assume "cap_inv (pool w)"
  with TxnCommit show ?thesis
    using txnDone_total [of "onComplete (txns w t)" "pool w"] step_frame [of a w]
      commit_pool [of t w]
    by (auto simp: cap_inv_def frame_def)
next
  case (TxnRollback t)
  assume "cap_inv (pool w)"
  with TxnRollback show ?thesis
    using txnDone_total [of "onComplete (txns w t)" "pool w"] step_frame [of a w]
    by (simp add: MemKvTxn_rollback_def Let_def MemKvTxn_close_pool upd_txn_def cap_inv_def frame_def)
next
  case (Cancel clr)
  assume "cap_inv (pool w)"
  with Cancel show ?thesis
    using step_frame [of a w]
    by (simp add: on_pool_def cancel_def cap_inv_def total_def fold_onCancel_lists frame_def)
qed (simp_all add: conn_defs txn_defs Let_def)

lemma run_cap: "cap_inv (pool w) \<Longrightarrow> cap_inv (pool (run acts w))"
  by (induction acts arbitrary: w) (simp_all add: step_cap)

lemma getPool_cap: "cap_inv (pool (getPool st n))"
  by (simp add: cap_inv_def total_def getPool_def)

lemma run_maxCnt: "maxCnt (pool (run acts w)) = maxCnt (pool w)"
proof (induction acts arbitrary: w)
  case Nil
  show ?case by simp
next
  case (Cons a acts)
  have "maxCnt (pool (step a w)) = maxCnt (pool w)"
  proof (cases "\<exists>ctx. a = PoolConn ctx")
    case True
    then show ?thesis by (auto simp: on_pool_def conn_frame)
  next
    case False
    then show ?thesis using step_frame [of a w] by (simp add: frame_def)
  qed
  with Cons.IH [of "step a w"] show ?case by simp
qed

lemma conn_old_reqs:
  "next_req p \<le> next_req (snd (MemKvPool_conn ctx p))"
  "r < next_req p \<Longrightarrow> reqs (snd (MemKvPool_conn ctx p)) r = reqs p r"
  unfolding MemKvPool_conn_def cancelableConnRequest_def newPromiseHandle_def clr_onCancel_def
    reset_def upd_conn_def Let_def
  by (auto split: list.splits option.splits)

lemma step_next_req_mono: "next_req (pool w) \<le> next_req (pool (step a w))"
proof (cases "\<exists>ctx. a = PoolConn ctx")
  case True
  then show ?thesis by (auto simp: on_pool_def conn_old_reqs)
next
  case False
  then show ?thesis using step_frame [of a w] by (simp add: frame_def)
qed

lemma step_settled:
  assumes "r < next_req (pool w)" and "r_promise (reqs (pool w) r) \<noteq> Pending"
  shows "r_promise (reqs (pool (step a w)) r) = r_promise (reqs (pool w) r)"
proof (cases "\<exists>ctx. a = PoolConn ctx")
  case True
  then show ?thesis using assms(1) by (auto simp: on_pool_def conn_old_reqs)
next
  case False
  then show ?thesis using step_frame [of a w] assms(2) by (simp add: frame_def)
qed

lemma run_settled:
  "r < next_req (pool w) \<Longrightarrow> r_promise (reqs (pool w) r) \<noteq> Pending \<Longrightarrow>
   r_promise (reqs (pool (run acts w)) r) = r_promise (reqs (pool w) r)"
proof (induction acts arbitrary: w)
  case Nil
  show ?case by simp
next
  case (Cons a acts)
  have lt: "r < next_req (pool (step a w))"
    using Cons.prems(1) step_next_req_mono [of w a] by simp
  have eq: "r_promise (reqs (pool (step a w)) r) = r_promise (reqs (pool w) r)"
    using Cons.prems by (rule step_settled)
  with Cons.prems(2) have "r_promise (reqs (pool (step a w)) r) \<noteq> Pending"
    by simp
  from Cons.IH [OF lt this] eq show ?case by simp
qed

lemma req_onCancel_no_fulfil:
  "r_promise (reqs (req_onCancel r' p) r) = Fulfilled c \<Longrightarrow> r_promise (reqs p r) = Fulfilled c"
  by (auto simp: req_onCancel_def clr_off_def upd_req_def Let_def promise_reject_def
        split: option.splits if_splits pstate.splits)

lemma fold_onCancel_no_fulfil:
  "r_promise (reqs (fold req_onCancel rs p) r) = Fulfilled c \<Longrightarrow> r_promise (reqs p r) = Fulfilled c"
  by (induction rs arbitrary: p) (auto dest: req_onCancel_no_fulfil)

lemma conn_queue_grows:
  "\<exists>new. reqQueue (snd (MemKvPool_conn ctx p)) = reqQueue p @ new"
  unfolding MemKvPool_conn_def cancelableConnRequest_def newPromiseHandle_def clr_onCancel_def
    reset_def upd_conn_def Let_def
  by (auto split: list.splits option.splits)

lemma step_no_release_queue:
  assumes "\<not> is_release a"
  shows "\<exists>new. reqQueue (pool (step a w)) = reqQueue (pool w) @ new"
proof (cases a)
  case (PoolConn ctx)
  then show ?thesis
    using conn_queue_grows [of ctx "pool w"] by (simp add: on_pool_def)
next
  case (ConnReset c' k)
  then show ?thesis by (simp add: on_pool_def reset_def upd_conn_def)
next
  case (Cancel clr)
  then show ?thesis
    by (simp add: on_pool_def cancel_def fold_onCancel_lists)
qed (use assms in \<open>simp_all add: conn_defs txn_defs Let_def\<close>)

lemma step_no_release:
  assumes "\<not> is_release a" and "r < next_req (pool w)"
    and "r_promise (reqs (pool (step a w)) r) = Fulfilled c"
  shows "r_promise (reqs (pool w) r) = Fulfilled c"
proof (cases a)
  case (PoolConn ctx)
  with assms(2,3) show ?thesis
    by (simp add: on_pool_def conn_old_reqs)
next
  case (ConnReset c' k)
  with assms(3) show ?thesis by (simp add: on_pool_def reset_def upd_conn_def)
next
  case (Cancel clr)
  with assms(3) show ?thesis
    using fold_onCancel_no_fulfil [of "cancelers (pool w) clr" "pool w" r c]
    by (simp add: on_pool_def cancel_def)
qed (use assms in \<open>simp_all add: conn_defs txn_defs Let_def split: if_splits\<close>)

lemma req_onCancel_other:
  "r' \<noteq> r \<Longrightarrow> reqs (req_onCancel r' p) r = reqs p r"
  by (auto simp: req_onCancel_def clr_off_def upd_req_def Let_def split: option.splits)

lemma req_onCancel_rejects:
  assumes "r_clr (reqs p r) = Some clr" and "\<not> resolved (reqs p r)"
    and "r_promise (reqs p r) = Pending"
  shows "r_promise (reqs (req_onCancel r p) r) = Rejected ContextCanceled
    \<and> timedOut (reqs (req_onCancel r p) r)"
  using assms by (simp add: req_onCancel_def clr_off_def upd_req_def Let_def promise_reject_def)

lemma fold_onCancel_rejects:
  "r \<in> set rs \<Longrightarrow> r_clr (reqs p r) = Some clr \<Longrightarrow> \<not> resolved (reqs p r) \<Longrightarrow>
   r_promise (reqs p r) = Pending \<Longrightarrow>
   r_promise (reqs (fold req_onCancel rs p) r) = Rejected ContextCanceled
   \<and> timedOut (reqs (fold req_onCancel rs p) r)"
proof (induction rs arbitrary: p)
  case Nil
  then show ?case by simp
next
  case (Cons r' rs)
  show ?case
  proof (cases "r' = r")
    case True
    let ?p1 = "req_onCancel r p"
    have now: "r_promise (reqs ?p1 r) = Rejected ContextCanceled" "timedOut (reqs ?p1 r)"
      using req_onCancel_rejects [OF Cons.prems(2,3,4)] by simp_all
    have "frame ?p1 (fold req_onCancel rs ?p1)"
      by (rule fold_onCancel_frame)
    with now True show ?thesis
      by (simp add: frame_def)
  next
    case False
    then have "reqs (req_onCancel r' p) r = reqs p r"
      by (rule req_onCancel_other)
    moreover have "r \<in> set rs"
      using Cons.prems(1) False by simp
    ultimately show ?thesis
      using Cons.IH [of "req_onCancel r' p"] Cons.prems by simp
  qed
qed

lemma cancel_rejects_waiter:
  assumes "pool_inv p" and "r \<in> set (reqQueue p)" and "r_clr (reqs p r) = Some clr"
    and "\<not> canceled p r"
  shows "r_promise (reqs (cancel clr p) r) = Rejected ContextCanceled"
    and "canceled (cancel clr p) r"
    and "reqQueue (cancel clr p) = reqQueue p"
proof -
  have w: "waiting p r"
    using assms(1,2,4) by (simp add: pool_inv_def)
  then have "r \<in> set (cancelers p clr)" "\<not> resolved (reqs p r)" "r_promise (reqs p r) = Pending"
    using assms(3) by (simp_all add: waiting_def)
  from fold_onCancel_rejects [OF this(1) assms(3) this(2,3)]
  show "r_promise (reqs (cancel clr p) r) = Rejected ContextCanceled"
    and "canceled (cancel clr p) r"
    using assms(3) fold_onCancel_frame [of p "cancelers p clr"]
    by (simp_all add: cancel_def canceled_def frame_def)
  show "reqQueue (cancel clr p) = reqQueue p"
    by (simp add: cancel_def fold_onCancel_lists)
qed

lemma reachable_inv:
  "pool_inv (pool (run acts (getPool st n)))" "cap_inv (pool (run acts (getPool st n)))"
  "maxCnt (pool (run acts (getPool st n))) = n"
  by (simp_all add: run_inv getPool_inv run_cap getPool_cap run_maxCnt) (simp add: getPool_def)

lemmas fifo_eval = example_two_waiting_def cancelable_def pool_eval canceled_def granted_def

lemma ex_two_waiting:
  "\<not> p_closed (pool example_two_waiting)"
  "active (pool example_two_waiting) = [0]"
  "reqQueue (pool example_two_waiting) = [0, 1]"
  "next_req (pool example_two_waiting) = 2"
  "r_promise (reqs (pool example_two_waiting) 0) = Pending"
  "r_clr (reqs (pool example_two_waiting) 0) = Some 0"
  "\<not> canceled (pool example_two_waiting) 0"
  "indexOf (active (pool example_two_waiting)) 0 = Some 0"
  "reqQueue (snd (MemKvPool_return 0 (pool example_two_waiting))) = [1]"
  "r_promise (reqs (snd (MemKvPool_return 0 (pool example_two_waiting))) 0) = Fulfilled 0"
  "active (snd (MemKvPool_return 0 (pool example_two_waiting))) = [0]"
  "p_pool (snd (MemKvPool_return 0 (pool example_two_waiting))) = []"
  "dropWhile (canceled (pool example_two_waiting)) (reqQueue (pool example_two_waiting)) = [0, 1]"
  by (simp_all add: fifo_eval)

lemma run_next_req_mono: "next_req (pool w) \<le> next_req (pool (run acts w))"
proof (induction acts arbitrary: w)
  case Nil
  show ?case by simp
next
  case (Cons a acts)
  have "next_req (pool w) \<le> next_req (pool (step a w))" by (rule step_next_req_mono)
  also have "\<dots> \<le> next_req (pool (run acts (step a w)))" by (rule Cons.IH)
  finally show ?case by simp
qed

lemma run_no_release:
  "r < next_req (pool w) \<Longrightarrow> \<forall>a\<in>set later. \<not> is_release a \<Longrightarrow>
   r_promise (reqs (pool w) r) = Pending \<Longrightarrow>
   r_promise (reqs (pool (run later w)) r) \<noteq> Fulfilled c"
proof (induction later arbitrary: w)
  case Nil
  then show ?case by simp
next
  case (Cons a later)
  have nr: "\<not> is_release a" and rest: "\<forall>a\<in>set later. \<not> is_release a"
    using Cons.prems(2) by simp_all
  have lt: "r < next_req (pool (step a w))"
    using Cons.prems(1) step_next_req_mono [of w a] by simp
  show ?case
  proof (cases "r_promise (reqs (pool (step a w)) r)")
    case Pending
    from Cons.IH [OF lt rest this] show ?thesis by simp
  next
    case (Fulfilled c')
    from step_no_release [OF nr Cons.prems(1) this] Cons.prems(3) show ?thesis by simp
  next
    case (Rejected e)
    then have "r_promise (reqs (pool (run later (step a w))) r) = Rejected e"
      using run_settled [OF lt, of later] by simp
    then show ?thesis by simp
  qed
qed

section \<open>Properties of the pool\<close>

text \<open>
  C2. Take a pool built by \<open>getPool(store, n)\<close> in any state it can reach through calls
  of the interface. At most \<open>n\<close> connections are active. While the pool is open and fewer
  than \<open>n\<close> are active, \<open>conn()\<close> resolves at once, with the first idle connection if
  there is one and with a new connection otherwise; when \<open>n\<close> are active, \<open>conn()\<close> puts
  a pending request at the end of the queue. From the new pool the first \<open>n\<close> requests
  all resolve at once and the next one is queued. A pending request is not fulfilled
  by any sequence of calls without a \<open>close()\<close> of a connection or of the pool, a
  \<open>commit()\<close> or a \<open>rollback()\<close>, and such calls only append to the queue. When an active connection
  is returned, the first queued request that is not canceled is fulfilled with that
  very connection, which stays active and out of the idle list, and the queue loses
  exactly the requests up to that one; with no such request the connection goes to
  the idle list.
\<close>

theorem pool_capacity_and_fifo:
  fixes n :: nat
  assumes "w = run acts (getPool st (int n))" and "p = pool w"
  shows "length (active p) \<le> n
    \<and> (\<not> p_closed p \<and> length (active p) < n \<longrightarrow>
          (\<exists>c. fst (MemKvPool_conn ctx p) = Inr (ConnNow c)
             \<and> c = (if p_pool p \<noteq> [] then hd (p_pool p) else next_conn p)
             \<and> active (snd (MemKvPool_conn ctx p)) = active p @ [c]
             \<and> reqQueue (snd (MemKvPool_conn ctx p)) = reqQueue p))
    \<and> (\<not> p_closed p \<and> length (active p) = n \<longrightarrow>
          fst (MemKvPool_conn ctx p) = Inr (ConnLater (next_req p))
          \<and> reqQueue (snd (MemKvPool_conn ctx p)) = reqQueue p @ [next_req p]
          \<and> r_promise (reqs (snd (MemKvPool_conn ctx p)) (next_req p)) = Pending
          \<and> active (snd (MemKvPool_conn ctx p)) = active p)
    \<and> (length ctxs = n \<longrightarrow>
          (\<forall>x\<in>set (fst (conn_all ctxs (pool (getPool st (int n))))). \<exists>c. x = Inr (ConnNow c))
          \<and> length (fst (conn_all ctxs (pool (getPool st (int n))))) = n
          \<and> (\<exists>q. fst (MemKvPool_conn ctx (snd (conn_all ctxs (pool (getPool st (int n))))))
                  = Inr (ConnLater q)
                \<and> reqQueue (snd (MemKvPool_conn ctx (snd (conn_all ctxs (pool (getPool st (int n))))))) = [q]
                \<and> r_promise (reqs (snd (MemKvPool_conn ctx
                      (snd (conn_all ctxs (pool (getPool st (int n))))))) q) = Pending))
    \<and> (r < next_req p \<and> (\<forall>x\<in>set later. \<not> is_release x) \<and> r_promise (reqs p r) = Pending \<longrightarrow>
          r_promise (reqs (pool (run later w)) r) \<noteq> Fulfilled c)
    \<and> (\<not> is_release a \<longrightarrow> (\<exists>new. reqQueue (pool (step a w)) = reqQueue p @ new))
    \<and> (indexOf (active p) c = Some ix \<longrightarrow>
          fst (MemKvPool_return c p) = Inr ()
          \<and> granted c ix p (snd (MemKvPool_return c p))
          \<and> (\<forall>q rest. dropWhile (canceled p) (reqQueue p) = q # rest \<longrightarrow>
                r_promise (reqs (snd (MemKvPool_return c p)) q) = Fulfilled c))"
proof -
  have inv: "pool_inv p" and cap: "cap_inv p" and mx: "maxCnt p = int n"
    using assms by (simp_all add: reachable_inv)
  have c1: "length (active p) \<le> n"
    using cap mx by (simp add: cap_inv_def total_def)
  have c2: "\<exists>c. fst (MemKvPool_conn ctx p) = Inr (ConnNow c)
             \<and> c = (if p_pool p \<noteq> [] then hd (p_pool p) else next_conn p)
             \<and> active (snd (MemKvPool_conn ctx p)) = active p @ [c]
             \<and> reqQueue (snd (MemKvPool_conn ctx p)) = reqQueue p"
    if "\<not> p_closed p \<and> length (active p) < n"
  proof -
    have "p_pool p \<noteq> [] \<or> int (length (active p)) < maxCnt p"
      using that mx by simp
    from conn_now [OF _ this, of ctx] that show ?thesis by blast
  qed
  have c3: "fst (MemKvPool_conn ctx p) = Inr (ConnLater (next_req p))
          \<and> reqQueue (snd (MemKvPool_conn ctx p)) = reqQueue p @ [next_req p]
          \<and> r_promise (reqs (snd (MemKvPool_conn ctx p)) (next_req p)) = Pending
          \<and> active (snd (MemKvPool_conn ctx p)) = active p"
    if "\<not> p_closed p \<and> length (active p) = n"
  proof -
    have "p_pool p = []" "\<not> int (length (active p)) < maxCnt p"
      using that cap mx by (simp_all add: cap_inv_def total_def)
    from conn_later [OF _ this, of ctx] that show ?thesis by simp
  qed
  have c4: "(\<forall>x\<in>set (fst (conn_all ctxs (pool (getPool st (int n))))). \<exists>c. x = Inr (ConnNow c))
          \<and> length (fst (conn_all ctxs (pool (getPool st (int n))))) = n
          \<and> (\<exists>q. fst (MemKvPool_conn ctx (snd (conn_all ctxs (pool (getPool st (int n))))))
                  = Inr (ConnLater q)
                \<and> reqQueue (snd (MemKvPool_conn ctx (snd (conn_all ctxs (pool (getPool st (int n))))))) = [q]
                \<and> r_promise (reqs (snd (MemKvPool_conn ctx
                      (snd (conn_all ctxs (pool (getPool st (int n))))))) q) = Pending)"
    if len: "length ctxs = n"
  proof -
    let ?p0 = "pool (getPool st (int n))"
    let ?p1 = "snd (conn_all ctxs ?p0)"
    have p0: "\<not> p_closed ?p0" "active ?p0 = []" "p_pool ?p0 = []" "reqQueue ?p0 = []"
      "maxCnt ?p0 = int n"
      by (simp_all add: getPool_def)
    have "int (length (active ?p0)) + int (length ctxs) \<le> maxCnt ?p0"
      using p0 len by simp
    from conn_all_immediate [OF p0(1) this]
    have all: "\<forall>x\<in>set (fst (conn_all ctxs ?p0)). \<exists>c. x = Inr (ConnNow c)"
      "length (fst (conn_all ctxs ?p0)) = n" "length (active ?p1) = n" "\<not> p_closed ?p1"
      "maxCnt ?p1 = int n" "p_pool ?p1 = []" "reqQueue ?p1 = []"
      using p0 len by simp_all
    have "\<not> int (length (active ?p1)) < maxCnt ?p1"
      using all by simp
    from conn_later [OF all(4,6) this, of ctx] all(7)
    have "fst (MemKvPool_conn ctx ?p1) = Inr (ConnLater (next_req ?p1))
        \<and> reqQueue (snd (MemKvPool_conn ctx ?p1)) = [next_req ?p1]
        \<and> r_promise (reqs (snd (MemKvPool_conn ctx ?p1)) (next_req ?p1)) = Pending"
      by simp
    with all(1,2) show ?thesis by blast
  qed
  have c5: "r_promise (reqs (pool (run later w)) r) \<noteq> Fulfilled c"
    if "r < next_req p \<and> (\<forall>x\<in>set later. \<not> is_release x) \<and> r_promise (reqs p r) = Pending"
    using run_no_release [of r w later c] that assms(2) by simp
  have c56: "(\<not> is_release a \<longrightarrow> (\<exists>new. reqQueue (pool (step a w)) = reqQueue p @ new))"
  proof (cases "is_release a")
    case True
    then show ?thesis by simp
  next
    case False
    have q: "\<exists>new. reqQueue (pool (step a w)) = reqQueue p @ new"
      using step_no_release_queue [OF False, of w] assms(2) by simp
    from q show ?thesis by blast
  qed
  have c7: "fst (MemKvPool_return c p) = Inr ()
          \<and> granted c ix p (snd (MemKvPool_return c p))
          \<and> (\<forall>q rest. dropWhile (canceled p) (reqQueue p) = q # rest \<longrightarrow>
                r_promise (reqs (snd (MemKvPool_return c p)) q) = Fulfilled c)"
    if ix: "indexOf (active p) c = Some ix"
  proof -
    have nt: "txn (conns p c) = None"
      using inv by (simp add: pool_inv_def)
    from return_grants_aux [OF refl ix nt]
    have g: "fst (MemKvPool_return c p) = Inr ()" "granted c ix p (snd (MemKvPool_return c p))"
      by simp_all
    have "r_promise (reqs (snd (MemKvPool_return c p)) q) = Fulfilled c"
      if dw: "dropWhile (canceled p) (reqQueue p) = q # rest" for q rest
    proof -
      have "q \<in> set (reqQueue p)"
        using dw by (metis list.set_intros(1) set_dropWhileD)
      moreover have "\<not> canceled p q"
        using dw by (metis hd_dropWhile list.sel(1) list.distinct(1))
      ultimately have "r_promise (reqs p q) = Pending"
        using inv by (simp add: pool_inv_def waiting_def)
      with g(2) dw show ?thesis
        by (simp add: granted_def promise_resolve_def)
    qed
    with g show ?thesis by blast
  qed
  from c1 c2 c3 c4 c5 c56 c7 show ?thesis by blast
qed


theorem pool_capacity_and_fifo_witness:
  "length (active (pool example_two_waiting)) \<le> 1
   \<and> \<not> p_closed (pool (getPool Map.empty 1)) \<and> length (active (pool (getPool Map.empty 1))) < 1
   \<and> fst (MemKvPool_conn background (pool (getPool Map.empty 1))) = Inr (ConnNow 0)
   \<and> \<not> p_closed (pool example_two_waiting) \<and> length (active (pool example_two_waiting)) = 1
   \<and> fst (MemKvPool_conn background (pool example_two_waiting)) = Inr (ConnLater 2)
   \<and> reqQueue (snd (MemKvPool_conn background (pool example_two_waiting))) = [0, 1, 2]
   \<and> length [background] = 1
   \<and> fst (conn_all [background] (pool (getPool Map.empty 1))) = [Inr (ConnNow 0)]
   \<and> 0 < next_req (pool example_two_waiting)
   \<and> \<not> is_release (ConnSet 0 ''a'' (JStr ''b'')) \<and> \<not> is_release (PoolConn background)
   \<and> r_promise (reqs (pool example_two_waiting) 0) = Pending
   \<and> r_promise (reqs (pool (run [ConnSet 0 ''a'' (JStr ''b''), PoolConn background]
          example_two_waiting)) 0) \<noteq> Fulfilled 0
   \<and> indexOf (active (pool example_two_waiting)) 0 = Some 0
   \<and> dropWhile (canceled (pool example_two_waiting)) (reqQueue (pool example_two_waiting)) = [0, 1]
   \<and> fst (MemKvPool_return 0 (pool example_two_waiting)) = Inr ()
   \<and> r_promise (reqs (snd (MemKvPool_return 0 (pool example_two_waiting))) 0) = Fulfilled 0
   \<and> reqQueue (snd (MemKvPool_return 0 (pool example_two_waiting))) = [1]
   \<and> active (snd (MemKvPool_return 0 (pool example_two_waiting))) = [0]
   \<and> p_pool (snd (MemKvPool_return 0 (pool example_two_waiting))) = []"
proof -
  have w0: "getPool Map.empty 1 = run [] (getPool Map.empty (int 1))"
    by simp
  have w1: "example_two_waiting
      = run [PoolConn background, PoolConn cancelable, PoolConn background] (getPool Map.empty (int 1))"
    by (simp add: example_two_waiting_def)
  note fresh = pool_capacity_and_fifo [OF w0 refl, where ctx = background]
  note full = pool_capacity_and_fifo [OF w1 refl, where ctx = background
      and later = "[ConnSet 0 ''a'' (JStr ''b''), PoolConn background]" and r = 0 and c = 0
      and ix = 0]
  have f0: "\<not> p_closed (pool (getPool Map.empty 1))" "length (active (pool (getPool Map.empty 1))) < 1"
    "p_pool (pool (getPool Map.empty 1)) = []" "next_conn (pool (getPool Map.empty 1)) = 0"
    "active (pool (getPool Map.empty 1)) = []"
    by (simp_all add: getPool_def)
  have len1: "length (active (pool example_two_waiting)) = 1"
    by (simp add: ex_two_waiting)
  have e1: "\<exists>c. fst (MemKvPool_conn background (pool (getPool Map.empty 1))) = Inr (ConnNow c)
      \<and> c = (if p_pool (pool (getPool Map.empty 1)) \<noteq> [] then hd (p_pool (pool (getPool Map.empty 1)))
              else next_conn (pool (getPool Map.empty 1)))
      \<and> active (snd (MemKvPool_conn background (pool (getPool Map.empty 1))))
          = active (pool (getPool Map.empty 1)) @ [c]
      \<and> reqQueue (snd (MemKvPool_conn background (pool (getPool Map.empty 1))))
          = reqQueue (pool (getPool Map.empty 1))"
    by (rule mp [OF fresh [THEN conjunct2, THEN conjunct1]]) (simp add: f0)
  have e2: "fst (MemKvPool_conn background (pool example_two_waiting))
        = Inr (ConnLater (next_req (pool example_two_waiting)))
      \<and> reqQueue (snd (MemKvPool_conn background (pool example_two_waiting)))
        = reqQueue (pool example_two_waiting) @ [next_req (pool example_two_waiting)]
      \<and> r_promise (reqs (snd (MemKvPool_conn background (pool example_two_waiting)))
          (next_req (pool example_two_waiting))) = Pending
      \<and> active (snd (MemKvPool_conn background (pool example_two_waiting)))
        = active (pool example_two_waiting)"
    by (rule mp [OF full [THEN conjunct2, THEN conjunct2, THEN conjunct1]])
       (simp add: ex_two_waiting(1) len1)
  have e3: "r_promise (reqs (pool (run [ConnSet 0 ''a'' (JStr ''b''), PoolConn background]
      example_two_waiting)) 0) \<noteq> Fulfilled 0"
    by (rule mp [OF full [THEN conjunct2, THEN conjunct2, THEN conjunct2, THEN conjunct2,
            THEN conjunct1]])
       (simp add: ex_two_waiting(4,5))
  have e4: "fst (MemKvPool_return 0 (pool example_two_waiting)) = Inr ()
      \<and> granted 0 0 (pool example_two_waiting) (snd (MemKvPool_return 0 (pool example_two_waiting)))
      \<and> (\<forall>q rest. dropWhile (canceled (pool example_two_waiting)) (reqQueue (pool example_two_waiting))
              = q # rest \<longrightarrow>
            r_promise (reqs (snd (MemKvPool_return 0 (pool example_two_waiting))) q) = Fulfilled 0)"
    by (rule mp [OF full [THEN conjunct2, THEN conjunct2, THEN conjunct2, THEN conjunct2,
            THEN conjunct2, THEN conjunct2]])
       (rule ex_two_waiting(8))
  have e5: "fst (conn_all [background] (pool (getPool Map.empty 1))) = [Inr (ConnNow 0)]"
    by (simp add: pool_eval)
  show ?thesis
    using e1 e2 e3 e4 e5 f0 ex_two_waiting by simp
qed

text \<open>
  C4, as the claim states it, fails: cancellation does not take the request off the
  queue. In \<open>example_two_waiting\<close> request 0 waits under the context with canceler 0;
  after the canceler has fired its promise is rejected with the cancellation error
  and the queue still holds it.
\<close>

theorem canceled_request_stays_queued:
  "reqQueue (pool example_two_waiting) = [0, 1]
   \<and> r_clr (reqs (pool example_two_waiting) 0) = Some 0
   \<and> r_promise (reqs (pool example_two_waiting) 0) = Pending
   \<and> r_promise (reqs (pool (step (Cancel 0) example_two_waiting)) 0) = Rejected ContextCanceled
   \<and> reqQueue (pool (step (Cancel 0) example_two_waiting)) = [0, 1]"
  by (simp add: fifo_eval)

text \<open>
  C4, amended. In every state the pool can reach: when the canceler of a queued
  request that is not yet canceled fires, the promise of the request is rejected with
  'Context was canceled before a connection was available', and the request stays in
  the queue, marked as timed out. A rejected promise stays rejected whatever calls
  follow, so no connection is ever delivered to it. A return of a connection takes
  off the queue the canceled requests that stand at its front and the first request
  that is not canceled. So a canceled request leaves the queue at a return at which
  every request ahead of it is canceled: its promise stays rejected, and the connection
  is closed again and passed on, to the first request that is not canceled, or else to
  the idle list. At a return at which a request that is not canceled stands ahead of
  it, the canceled request stays in the queue, its promise rejected.
\<close>

theorem canceled_request_rejected_then_skipped:
  assumes "w = run acts (getPool st n)" and "p = pool w"
  shows "(r \<in> set (reqQueue p) \<and> r_clr (reqs p r) = Some clr \<and> \<not> canceled p r \<longrightarrow>
            r_promise (reqs (cancel clr p) r) = Rejected ContextCanceled
            \<and> canceled (cancel clr p) r
            \<and> reqQueue (cancel clr p) = reqQueue p)
    \<and> (r < next_req p \<and> r_promise (reqs p r) = Rejected e \<longrightarrow>
            r_promise (reqs (pool (run later w)) r) = Rejected e)
    \<and> (indexOf (active p) c = Some ix \<and> r \<in> set (takeWhile (canceled p) (reqQueue p)) \<longrightarrow>
            fst (MemKvPool_return c p) = Inr ()
            \<and> r \<notin> set (reqQueue (snd (MemKvPool_return c p)))
            \<and> r_promise (reqs (snd (MemKvPool_return c p)) r) = Rejected ContextCanceled
            \<and> granted c ix p (snd (MemKvPool_return c p)))
    \<and> (indexOf (active p) c = Some ix \<and> r \<in> set (reqQueue p) \<and> canceled p r
          \<and> r \<notin> set (takeWhile (canceled p) (reqQueue p)) \<longrightarrow>
            fst (MemKvPool_return c p) = Inr ()
            \<and> r \<in> set (reqQueue (snd (MemKvPool_return c p)))
            \<and> r_promise (reqs (snd (MemKvPool_return c p)) r) = Rejected ContextCanceled)"
proof -
  have inv: "pool_inv p"
    using assms by (simp add: reachable_inv)
  have a: "r_promise (reqs (cancel clr p) r) = Rejected ContextCanceled
            \<and> canceled (cancel clr p) r
            \<and> reqQueue (cancel clr p) = reqQueue p"
    if "r \<in> set (reqQueue p) \<and> r_clr (reqs p r) = Some clr \<and> \<not> canceled p r"
    using cancel_rejects_waiter [OF inv, of r clr] that by simp
  have b: "r_promise (reqs (pool (run later w)) r) = Rejected e"
    if "r < next_req p \<and> r_promise (reqs p r) = Rejected e"
    using run_settled [of r w later] that assms(2) by simp
  have c: "fst (MemKvPool_return c p) = Inr ()
            \<and> r \<notin> set (reqQueue (snd (MemKvPool_return c p)))
            \<and> r_promise (reqs (snd (MemKvPool_return c p)) r) = Rejected ContextCanceled
            \<and> granted c ix p (snd (MemKvPool_return c p))"
    if h: "indexOf (active p) c = Some ix \<and> r \<in> set (takeWhile (canceled p) (reqQueue p))"
  proof -
    let ?p1 = "snd (MemKvPool_return c p)"
    have nt: "txn (conns p c) = None"
      using inv by (simp add: pool_inv_def)
    from return_grants_aux [OF refl _ nt, of ix] h
    have g: "fst (MemKvPool_return c p) = Inr ()" "granted c ix p ?p1"
      by simp_all
    have rq: "r \<in> set (reqQueue p)" and rc: "canceled p r"
      using h by (auto dest: set_takeWhileD)
    have rej: "r_promise (reqs p r) = Rejected ContextCanceled"
      using inv rq rc by (simp add: pool_inv_def)
    have "frame p ?p1"
      by (rule close_return_resolve_frame)
    with rej have keep: "r_promise (reqs ?p1 r) = Rejected ContextCanceled"
      by (simp add: frame_def)
    have "distinct (takeWhile (canceled p) (reqQueue p) @ dropWhile (canceled p) (reqQueue p))"
      using inv by (simp add: pool_inv_def)
    then have nd: "r \<notin> set (dropWhile (canceled p) (reqQueue p))"
      using h unfolding distinct_append by blast
    have "r \<notin> set (reqQueue ?p1)"
      using g(2) nd by (auto simp: granted_def split: list.splits)
    with g keep show ?thesis by simp
  qed
  have d: "fst (MemKvPool_return c p) = Inr ()
            \<and> r \<in> set (reqQueue (snd (MemKvPool_return c p)))
            \<and> r_promise (reqs (snd (MemKvPool_return c p)) r) = Rejected ContextCanceled"
    if h: "indexOf (active p) c = Some ix \<and> r \<in> set (reqQueue p) \<and> canceled p r
          \<and> r \<notin> set (takeWhile (canceled p) (reqQueue p))"
  proof -
    let ?p1 = "snd (MemKvPool_return c p)"
    have nt: "txn (conns p c) = None"
      using inv by (simp add: pool_inv_def)
    from return_grants_aux [OF refl _ nt, of ix] h
    have g: "fst (MemKvPool_return c p) = Inr ()" "granted c ix p ?p1"
      by simp_all
    have rej: "r_promise (reqs p r) = Rejected ContextCanceled"
      using inv h by (simp add: pool_inv_def)
    have "frame p ?p1"
      by (rule close_return_resolve_frame)
    with rej have keep: "r_promise (reqs ?p1 r) = Rejected ContextCanceled"
      by (simp add: frame_def)
    have "set (reqQueue p)
        = set (takeWhile (canceled p) (reqQueue p)) \<union> set (dropWhile (canceled p) (reqQueue p))"
      by (simp only: set_append [symmetric] takeWhile_dropWhile_id)
    with h have rd: "r \<in> set (dropWhile (canceled p) (reqQueue p))"
      by blast
    then obtain q rest where dw: "dropWhile (canceled p) (reqQueue p) = q # rest"
      by (cases "dropWhile (canceled p) (reqQueue p)") auto
    have "\<not> canceled p q"
      using dw hd_dropWhile [of "canceled p" "reqQueue p"] by auto
    with h have "r \<noteq> q" by auto
    with rd dw have "r \<in> set rest" by simp
    moreover have "reqQueue ?p1 = rest"
      using g(2) dw by (simp add: granted_def)
    ultimately show ?thesis using g(1) keep by simp
  qed
  from a b c d show ?thesis by blast
qed

lemma ex_canceled:
  "reqQueue (pool example_canceled) = [0, 1]"
  "next_req (pool example_canceled) = 2"
  "r_promise (reqs (pool example_canceled) 0) = Rejected ContextCanceled"
  "indexOf (active (pool example_canceled)) 0 = Some 0"
  "takeWhile (canceled (pool example_canceled)) (reqQueue (pool example_canceled)) = [0]"
  "reqQueue (snd (MemKvPool_return 0 (pool example_canceled))) = []"
  "r_promise (reqs (snd (MemKvPool_return 0 (pool example_canceled))) 1) = Fulfilled 0"
  "active (snd (MemKvPool_return 0 (pool example_canceled))) = [0]"
  "r_promise (reqs (pool (run [ConnClose 0, PoolConn background] example_canceled)) 0)
     = Rejected ContextCanceled"
  by (simp_all add: example_canceled_def fifo_eval)

lemma ex_canceled_behind:
  "reqQueue (pool example_canceled_behind) = [0, 1]"
  "indexOf (active (pool example_canceled_behind)) 0 = Some 0"
  "canceled (pool example_canceled_behind) 1"
  "takeWhile (canceled (pool example_canceled_behind)) (reqQueue (pool example_canceled_behind)) = []"
  "reqQueue (snd (MemKvPool_return 0 (pool example_canceled_behind))) = [1]"
  "r_promise (reqs (snd (MemKvPool_return 0 (pool example_canceled_behind))) 0) = Fulfilled 0"
  "reqQueue (pool (run [ConnClose 0, ConnClose 0] example_canceled_behind)) = []"
  "p_pool (pool (run [ConnClose 0, ConnClose 0] example_canceled_behind)) = [0]"
  by (simp_all add: example_canceled_behind_def fifo_eval)

theorem canceled_request_rejected_then_skipped_witness:
  "0 \<in> set (reqQueue (pool example_two_waiting))
   \<and> r_clr (reqs (pool example_two_waiting) 0) = Some 0
   \<and> \<not> canceled (pool example_two_waiting) 0
   \<and> r_promise (reqs (cancel 0 (pool example_two_waiting)) 0) = Rejected ContextCanceled
   \<and> reqQueue (cancel 0 (pool example_two_waiting)) = [0, 1]
   \<and> 0 < next_req (pool example_canceled)
   \<and> r_promise (reqs (pool example_canceled) 0) = Rejected ContextCanceled
   \<and> r_promise (reqs (pool (run [ConnClose 0, PoolConn background] example_canceled)) 0)
       = Rejected ContextCanceled
   \<and> indexOf (active (pool example_canceled)) 0 = Some 0
   \<and> 0 \<in> set (takeWhile (canceled (pool example_canceled)) (reqQueue (pool example_canceled)))
   \<and> fst (MemKvPool_return 0 (pool example_canceled)) = Inr ()
   \<and> 0 \<notin> set (reqQueue (snd (MemKvPool_return 0 (pool example_canceled))))
   \<and> r_promise (reqs (snd (MemKvPool_return 0 (pool example_canceled))) 0) = Rejected ContextCanceled
   \<and> r_promise (reqs (snd (MemKvPool_return 0 (pool example_canceled))) 1) = Fulfilled 0
   \<and> active (snd (MemKvPool_return 0 (pool example_canceled))) = [0]
   \<and> indexOf (active (pool example_canceled_behind)) 0 = Some 0
   \<and> 1 \<in> set (reqQueue (pool example_canceled_behind))
   \<and> canceled (pool example_canceled_behind) 1
   \<and> 1 \<notin> set (takeWhile (canceled (pool example_canceled_behind))
               (reqQueue (pool example_canceled_behind)))
   \<and> 1 \<in> set (reqQueue (snd (MemKvPool_return 0 (pool example_canceled_behind))))
   \<and> r_promise (reqs (snd (MemKvPool_return 0 (pool example_canceled_behind))) 1)
       = Rejected ContextCanceled
   \<and> r_promise (reqs (snd (MemKvPool_return 0 (pool example_canceled_behind))) 0) = Fulfilled 0"
proof -
  have w1: "example_two_waiting
      = run [PoolConn background, PoolConn cancelable, PoolConn background] (getPool Map.empty 1)"
    by (simp add: example_two_waiting_def)
  have w2: "example_canceled
      = run [PoolConn background, PoolConn cancelable, PoolConn background, Cancel 0]
          (getPool Map.empty 1)"
    by (simp add: example_canceled_def example_two_waiting_def)
  note t1 = canceled_request_rejected_then_skipped [OF w1 refl, where r = 0 and clr = 0]
  note t2 = canceled_request_rejected_then_skipped [OF w2 refl, where r = 0 and c = 0 and ix = 0
      and e = ContextCanceled and later = "[ConnClose 0, PoolConn background]"]
  have h1: "0 \<in> set (reqQueue (pool example_two_waiting))
      \<and> r_clr (reqs (pool example_two_waiting) 0) = Some 0
      \<and> \<not> canceled (pool example_two_waiting) 0"
    by (simp add: ex_two_waiting)
  have e1: "r_promise (reqs (cancel 0 (pool example_two_waiting)) 0) = Rejected ContextCanceled
      \<and> canceled (cancel 0 (pool example_two_waiting)) 0
      \<and> reqQueue (cancel 0 (pool example_two_waiting)) = reqQueue (pool example_two_waiting)"
    by (rule mp [OF t1 [THEN conjunct1] h1])
  have h2: "0 < next_req (pool example_canceled)
      \<and> r_promise (reqs (pool example_canceled) 0) = Rejected ContextCanceled"
    by (simp add: ex_canceled)
  have e2: "r_promise (reqs (pool (run [ConnClose 0, PoolConn background] example_canceled)) 0)
      = Rejected ContextCanceled"
    by (rule mp [OF t2 [THEN conjunct2, THEN conjunct1] h2])
  have h3: "indexOf (active (pool example_canceled)) 0 = Some 0
      \<and> 0 \<in> set (takeWhile (canceled (pool example_canceled)) (reqQueue (pool example_canceled)))"
    unfolding ex_canceled(4,5) by simp
  have e3: "fst (MemKvPool_return 0 (pool example_canceled)) = Inr ()
      \<and> 0 \<notin> set (reqQueue (snd (MemKvPool_return 0 (pool example_canceled))))
      \<and> r_promise (reqs (snd (MemKvPool_return 0 (pool example_canceled))) 0) = Rejected ContextCanceled
      \<and> granted 0 0 (pool example_canceled) (snd (MemKvPool_return 0 (pool example_canceled)))"
    by (rule mp [OF t2 [THEN conjunct2, THEN conjunct2, THEN conjunct1] h3])
  note t3 = canceled_request_rejected_then_skipped [OF example_canceled_behind_def refl,
      where r = 1 and c = 0 and ix = 0]
  have h4: "indexOf (active (pool example_canceled_behind)) 0 = Some 0
      \<and> 1 \<in> set (reqQueue (pool example_canceled_behind))
      \<and> canceled (pool example_canceled_behind) 1
      \<and> 1 \<notin> set (takeWhile (canceled (pool example_canceled_behind))
                  (reqQueue (pool example_canceled_behind)))"
  proof -
    have "1 \<notin> set (takeWhile (canceled (pool example_canceled_behind))
                  (reqQueue (pool example_canceled_behind)))"
      unfolding ex_canceled_behind(4) by simp
    then show ?thesis
      using ex_canceled_behind(1,2,3) by simp
  qed
  have e4: "fst (MemKvPool_return 0 (pool example_canceled_behind)) = Inr ()
      \<and> 1 \<in> set (reqQueue (snd (MemKvPool_return 0 (pool example_canceled_behind))))
      \<and> r_promise (reqs (snd (MemKvPool_return 0 (pool example_canceled_behind))) 1)
          = Rejected ContextCanceled"
    by (rule mp [OF t3 [THEN conjunct2, THEN conjunct2, THEN conjunct2] h4])
  show ?thesis
    using h1 e1 h2 e2 h3 e3 h4 e4 ex_canceled(7,8) ex_two_waiting(3) ex_canceled_behind(6)
    by simp
qed

section \<open>Properties of the stack engine\<close>

text \<open>
  The stack engine does what the key-value engine leaves out: a listener subscribed at
  \<open>beginTxn\<close> rolls the open transaction back when the canceler fires and is unsubscribed
  when the transaction completes; \<open>close()\<close> of a connection with an open transaction waits
  behind a barrier that \<open>_txnDone\<close> resolves.
\<close>

lemma release_side: "same_txn_side w (MemStackPool_release c w)"
  by (auto simp: same_txn_side_def MemStackPool_release_def Let_def split: option.splits)

lemma sclose_side: "same_txn_side w (snd (MemStackConn_close c w))"
  using release_side [of "upd_sconn c (\<lambda>x. x\<lparr>sc_closed := True\<rparr>) w" c]
  by (auto simp: same_txn_side_def MemStackConn_close_def upd_sconn_def Let_def)

lemma stxnDone_side: "same_txn_side w (snd (MemStackConn_txnDone c t w))"
proof (cases "indexOf (sc_txns (sconns w c)) t")
  case None
  then show ?thesis by (simp add: MemStackConn_txnDone_def same_txn_side_def)
next
  case (Some ix)
  let ?w1 = "upd_sconn c (\<lambda>x. x\<lparr>sc_txns := splice1 ix (sc_txns x)\<rparr>) w"
  have s1: "same_txn_side w ?w1"
    by (simp add: same_txn_side_def upd_sconn_def)
  have s2: "same_txn_side ?w1 (MemStackPool_release c ?w1)"
    by (rule release_side)
  have s3: "same_txn_side ?w1 (snd (MemStackConn_close c ?w1))"
    by (rule sclose_side)
  from Some s1 s2 s3 show ?thesis
    by (auto simp: MemStackConn_txnDone_def Let_def same_txn_side_def
          split: option.splits prod.splits sum.splits)
qed

lemma stack_cancel_when_done:
  assumes "s_done (stxns w t)"
  shows "fst (MemStackTxn_cancel t w) = Inr ()"
    and "stack (snd (MemStackTxn_cancel t w)) = stack w"
    and "s_done (stxns (snd (MemStackTxn_cancel t w)) t)"
    and "\<not> s_onCancel (stxns (snd (MemStackTxn_cancel t w)) t)"
    and "s_clr (stxns w t) = Some clr \<Longrightarrow> s_onCancel (stxns w t) \<Longrightarrow>
           t \<notin> set (s_cancelers (snd (MemStackTxn_cancel t w)) clr)"
  using assms
  by (auto simp: MemStackTxn_cancel.simps upd_stxn_def Let_def split: option.splits)

lemma stack_complete_when_done:
  assumes "s_done (stxns w t)"
  shows "stack (snd (MemStackTxn_complete t w)) = stack w"
    and "s_done (stxns (snd (MemStackTxn_complete t w)) t)"
    and "\<not> s_onCancel (stxns (snd (MemStackTxn_complete t w)) t)"
    and "s_clr (stxns w t) = Some clr \<Longrightarrow> s_onCancel (stxns w t) \<Longrightarrow>
           t \<notin> set (s_cancelers (snd (MemStackTxn_complete t w)) clr)"
proof -
  obtain u w1 where c: "MemStackTxn_cancel t w = (u, w1)"
    by (cases "MemStackTxn_cancel t w")
  have u: "u = Inr ()"
    using stack_cancel_when_done(1) [OF assms] c by simp
  have w1: "stack w1 = stack w" "s_done (stxns w1 t)" "\<not> s_onCancel (stxns w1 t)"
    using stack_cancel_when_done(2,3,4) [OF assms] c by simp_all
  have w1c: "t \<notin> set (s_cancelers w1 clr)" if "s_clr (stxns w t) = Some clr" "s_onCancel (stxns w t)"
    using stack_cancel_when_done(5) [OF assms that] c by simp
  have side: "same_txn_side w1 (snd (MemStackConn_txnDone (s_con (stxns w1 t)) t w1))"
    by (rule stxnDone_side)
  have eq: "snd (MemStackTxn_complete t w) = snd (MemStackConn_txnDone (s_con (stxns w1 t)) t w1)"
    using c u by (simp add: MemStackTxn_complete.simps split: prod.splits sum.splits option.splits)
  show "stack (snd (MemStackTxn_complete t w)) = stack w"
    and "s_done (stxns (snd (MemStackTxn_complete t w)) t)"
    and "\<not> s_onCancel (stxns (snd (MemStackTxn_complete t w)) t)"
    using eq side w1 by (simp_all add: same_txn_side_def)
  show "t \<notin> set (s_cancelers (snd (MemStackTxn_complete t w)) clr)"
    if "s_clr (stxns w t) = Some clr" "s_onCancel (stxns w t)"
    using eq side w1c [OF that] by (simp add: same_txn_side_def)
qed

lemma stack_cancel_when_done_listeners:
  "s_done (stxns w t) \<Longrightarrow>
     set (s_cancelers (snd (MemStackTxn_cancel t w)) clr) \<subseteq> set (s_cancelers w clr)"
  by (auto simp: MemStackTxn_cancel.simps upd_stxn_def Let_def split: option.splits if_splits)

lemma stack_complete_when_done_listeners:
  assumes "s_done (stxns w t)"
  shows "set (s_cancelers (snd (MemStackTxn_complete t w)) clr) \<subseteq> set (s_cancelers w clr)"
proof -
  obtain u w1 where c: "MemStackTxn_cancel t w = (u, w1)"
    by (cases "MemStackTxn_cancel t w")
  have u: "u = Inr ()"
    using stack_cancel_when_done(1) [OF assms] c by simp
  have sub: "set (s_cancelers w1 clr) \<subseteq> set (s_cancelers w clr)"
    using stack_cancel_when_done_listeners [OF assms, of clr] c by simp
  have side: "same_txn_side w1 (snd (MemStackConn_txnDone (s_con (stxns w1 t)) t w1))"
    by (rule stxnDone_side)
  have eq: "snd (MemStackTxn_complete t w) = snd (MemStackConn_txnDone (s_con (stxns w1 t)) t w1)"
    using c u by (simp add: MemStackTxn_complete.simps split: prod.splits sum.splits option.splits)
  show ?thesis
    using eq side sub by (simp add: same_txn_side_def)
qed

lemma stack_rollback_effect:
  assumes "\<not> s_done (stxns w t)"
  shows "stack (snd (MemStackTxn_rollback t w)) = stack w"
    and "s_done (stxns (snd (MemStackTxn_rollback t w)) t)"
    and "set (s_cancelers (snd (MemStackTxn_rollback t w)) clr) \<subseteq> set (s_cancelers w clr)"
    and "s_clr (stxns w t) = Some clr \<Longrightarrow> s_onCancel (stxns w t) \<Longrightarrow>
           t \<notin> set (s_cancelers (snd (MemStackTxn_rollback t w)) clr)"
proof -
  let ?w0 = "upd_stxn t (\<lambda>x. x\<lparr>s_done := True\<rparr>) w"
  have eq: "MemStackTxn_rollback t w = MemStackTxn_complete t ?w0"
    using assms by (simp add: MemStackTxn_rollback.simps)
  have d: "s_done (stxns ?w0 t)" by (simp add: upd_stxn_def)
  have same: "stack ?w0 = stack w" "s_cancelers ?w0 = s_cancelers w"
    "s_clr (stxns ?w0 t) = s_clr (stxns w t)" "s_onCancel (stxns ?w0 t) = s_onCancel (stxns w t)"
    by (simp_all add: upd_stxn_def)
  show "stack (snd (MemStackTxn_rollback t w)) = stack w"
    and "s_done (stxns (snd (MemStackTxn_rollback t w)) t)"
    and "set (s_cancelers (snd (MemStackTxn_rollback t w)) clr) \<subseteq> set (s_cancelers w clr)"
    using stack_complete_when_done(1,2) [OF d] stack_complete_when_done_listeners [OF d, of clr]
    unfolding eq same by simp_all
  show "t \<notin> set (s_cancelers (snd (MemStackTxn_rollback t w)) clr)"
    if "s_clr (stxns w t) = Some clr" "s_onCancel (stxns w t)"
    using stack_complete_when_done(4) [OF d, of clr] that unfolding eq same by simp
qed

lemma stack_commit_unsubscribes:
  assumes "\<not> s_done (stxns w t)" and "s_clr (stxns w t) = Some clr" and "s_onCancel (stxns w t)"
  shows "s_done (stxns (snd (MemStackTxn_commit t w)) t)"
    and "t \<notin> set (s_cancelers (snd (MemStackTxn_commit t w)) clr)"
proof -
  let ?w1 = "upd_stxn t (\<lambda>x. x\<lparr>s_done := True\<rparr>) w"
  let ?w2 = "?w1\<lparr>stack := fold apply_stack_op (s_ops (stxns ?w1 t)) (stack ?w1)\<rparr>"
  have eq: "MemStackTxn_commit t w = MemStackTxn_complete t ?w2"
    using assms(1) by (simp add: MemStackTxn_commit_def Let_def)
  have d: "s_done (stxns ?w2 t)" "s_clr (stxns ?w2 t) = Some clr" "s_onCancel (stxns ?w2 t)"
    using assms by (simp_all add: upd_stxn_def)
  show "s_done (stxns (snd (MemStackTxn_commit t w)) t)"
    and "t \<notin> set (s_cancelers (snd (MemStackTxn_commit t w)) clr)"
    using stack_complete_when_done(2) [OF d(1)] stack_complete_when_done(4) [OF d]
    unfolding eq by simp_all
qed

lemma stack_txn_rolls_back_on_cancel:
  assumes "MemStackConn_beginTxn c ctx opts w = (Inr t, w1)" and "canceler ctx = Some clr"
  shows "t \<in> set (s_cancelers w1 clr)"
    and "s_clr (stxns w1 t) = Some clr \<and> s_onCancel (stxns w1 t) \<and> \<not> s_done (stxns w1 t)"
    and "s_done (stxns (snd (MemStackTxn_cancel t w1)) t)"
    and "stack (snd (MemStackTxn_cancel t w1)) = stack w1"
proof -
  show b1: "t \<in> set (s_cancelers w1 clr)"
    and b2: "s_clr (stxns w1 t) = Some clr \<and> s_onCancel (stxns w1 t) \<and> \<not> s_done (stxns w1 t)"
    using assms
    by (auto simp: MemStackConn_beginTxn_def upd_stxn_def upd_sconn_def Let_def split: if_splits)
  let ?w2 = "upd_stxn t (\<lambda>x. x\<lparr>s_onCancel := False\<rparr>)
      (w1\<lparr>s_cancelers := (s_cancelers w1)(clr := removeAll t (s_cancelers w1 clr))\<rparr>)"
  have nd: "\<not> s_done (stxns ?w2 t)" and st: "stack ?w2 = stack w1"
    using b2 by (simp_all add: upd_stxn_def)
  have eq: "snd (MemStackTxn_cancel t w1) = snd (MemStackTxn_rollback t ?w2)"
    using b2 by (simp add: MemStackTxn_cancel.simps Let_def upd_stxn_def split: prod.splits sum.splits)
  show "s_done (stxns (snd (MemStackTxn_cancel t w1)) t)"
    and "stack (snd (MemStackTxn_cancel t w1)) = stack w1"
    using stack_rollback_effect(1,2) [OF nd] st unfolding eq by simp_all
qed

lemma stack_conn_close_waits_for_txn:
  assumes "\<not> sc_closed (sconns w c)" and "sc_txns (sconns w c) \<noteq> []"
  shows "fst (MemStackConn_close c w) = Inr (Barrier (s_next_barrier w))"
    and "s_barriers (snd (MemStackConn_close c w)) (s_next_barrier w) = Pending"
    and "closeResolve (sconns (snd (MemStackConn_close c w)) c) = Some (s_next_barrier w)"
    and "sp_active (snd (MemStackConn_close c w)) = sp_active w"
  using assms by (simp_all add: MemStackConn_close_def upd_sconn_def Let_def)

lemma indexOf_None: "indexOf xs x = None \<longleftrightarrow> x \<notin> set xs"
  by (induction xs) auto

lemma stack_txnDone_resolves_barrier:
  assumes "sc_txns (sconns w c) = [t]" and "closeResolve (sconns w c) = Some b"
    and "s_barriers w b = Pending"
  shows "s_barriers (snd (MemStackConn_txnDone c t w)) b = Fulfilled ()"
    and "c \<notin> set (sp_active w) \<or> length (sp_active (snd (MemStackConn_txnDone c t w))) < length (sp_active w)"
proof -
  let ?w1 = "upd_sconn c (\<lambda>x. x\<lparr>sc_txns := splice1 0 (sc_txns x)\<rparr>) w"
  let ?w2 = "MemStackPool_release c ?w1"
  have eq: "snd (MemStackConn_txnDone c t w)
      = ?w2\<lparr>s_barriers := (s_barriers ?w2)(b := promise_resolve () (s_barriers ?w2 b))\<rparr>"
    using assms(1,2) by (simp add: MemStackConn_txnDone_def upd_sconn_def splice1_def Let_def)
  show "s_barriers (snd (MemStackConn_txnDone c t w)) b = Fulfilled ()"
    unfolding eq using assms(3)
    by (auto simp: MemStackPool_release_def upd_sconn_def promise_resolve_def Let_def
          split: option.splits)
  show "c \<notin> set (sp_active w) \<or> length (sp_active (snd (MemStackConn_txnDone c t w))) < length (sp_active w)"
  proof (cases "indexOf (sp_active w) c")
    case None
    then show ?thesis by (simp add: indexOf_None)
  next
    case (Some ix)
    then have "length (splice1 ix (sp_active w)) < length (sp_active w)"
      using splice1_length indexOf_less by metis
    with Some show ?thesis
      unfolding eq
      by (auto simp: MemStackPool_release_def upd_sconn_def Let_def split: option.splits)
  qed
qed

section \<open>The tests of the repository on the model\<close>

text \<open>
  The scenarios of \<open>context.spec.ts\<close> (on the stack engine) and of \<open>mem-kv.spec.ts\<close>
  (on the key-value engine), evaluated on the definitions above, give what the tests expect.
\<close>

lemmas stack_eval = openStackPool_def MemStackPool_beginTxn_def stack_env_def ctxRoot_def
  withStorageApi_def getStorageApi_def pick_callback_def runTransaction_def catch_rollback_def
  MemStackConn_beginTxn_def MemStackTxn_commit_def MemStackTxn_push_def MemStackTxn_peek_def
  MemStackTxn_cancel.simps MemStackTxn_rollback.simps MemStackTxn_complete.simps
  MemStackConn_txnDone_def MemStackConn_close_def MemStackPool_release_def
  upd_stxn_def upd_sconn_def splice1_def Let_def

lemma test_runs_operations_inside_a_transaction:
  "fst (runTransaction stack_env ctxRoot (Callback cb_push) None (openStackPool [JStr ''a'', JStr ''b'']))
     = Inr ()"
  "stack (snd (runTransaction stack_env ctxRoot (Callback cb_push) None
       (openStackPool [JStr ''a'', JStr ''b''])))
     = [JStr ''a'', JStr ''b'', JStr ''c'']"
  by (simp_all add: stack_eval)

lemma test_rolls_back_on_error:
  "fst (runTransaction stack_env ctxRoot (Callback cb_push_peek_throw) None
       (openStackPool [JStr ''a'', JStr ''b'']))
     = Inl (UserError ''Failing on purpose'')"
  "stack (snd (runTransaction stack_env ctxRoot (Callback cb_push_peek_throw) None
       (openStackPool [JStr ''a'', JStr ''b''])))
     = [JStr ''a'', JStr ''b'']"
  by (simp_all add: stack_eval)

lemma test_uses_options:
  "fst (runTransaction stack_env ctxRoot
       (Opts (Some \<lparr>isolationLevel = None, readOnly = Some True\<rparr>)) (Some cb_push)
       (openStackPool [JStr ''a'', JStr ''b'']))
     = Inl TransactionReadOnly"
  "stack (snd (runTransaction stack_env ctxRoot
       (Opts (Some \<lparr>isolationLevel = None, readOnly = Some True\<rparr>)) (Some cb_push)
       (openStackPool [JStr ''a'', JStr ''b''])))
     = [JStr ''a'', JStr ''b'']"
  by (simp_all add: stack_eval)

lemma test_reuses_existing_transaction:
  "fst (runTransaction stack_env ctxRoot
       (Callback (\<lambda>ctx tx. runTransaction stack_env ctx
          (Callback (\<lambda>ctxInner txInner w.
             if ctxInner = ctx \<and> txInner = tx then cb_push ctxInner txInner w
             else (Inl (UserError ''expect failed''), w))) None)) None
       (openStackPool [JStr ''a'', JStr ''b'']))
     = Inr ()"
  "stack (snd (runTransaction stack_env ctxRoot
       (Callback (\<lambda>ctx tx. runTransaction stack_env ctx
          (Callback (\<lambda>ctxInner txInner w.
             if ctxInner = ctx \<and> txInner = tx then cb_push ctxInner txInner w
             else (Inl (UserError ''expect failed''), w))) None)) None
       (openStackPool [JStr ''a'', JStr ''b''])))
     = [JStr ''a'', JStr ''b'', JStr ''c'']"
  by (simp_all add: stack_eval)

lemma test_throws_without_api_or_callback:
  "fst (runTransaction stack_env \<lparr>canceler = None, storageApi = None\<rparr> (Callback cb_push) None w)
     = Inl NoStorageApi"
  "fst (runTransaction stack_env ctxRoot (Opts None) None w) = Inl MissingCallback"
  by (simp_all add: stack_eval)

lemma test_kv_waits_for_connection:
  "fst (MemKvPool_conn background (pool (run [PoolConn background] (getPool [''a'' \<mapsto> JStr ''b''] 1))))
     = Inr (ConnLater 0)"
  "r_promise (reqs (pool (run [PoolConn background, PoolConn background, ConnSet 0 ''a'' (JStr ''c''),
       ConnClose 0] (getPool [''a'' \<mapsto> JStr ''b''] 1))) 0) = Fulfilled 0"
  "fst (MemKvConn_get 0 ''a'' (run [PoolConn background, PoolConn background,
       ConnSet 0 ''a'' (JStr ''c''), ConnClose 0] (getPool [''a'' \<mapsto> JStr ''b''] 1)))
     = Inr (JStr ''c'')"
  by (simp_all add: pool_eval)

lemma test_kv_cancels_if_timed_out:
  "r_promise (reqs (pool (run [PoolConn background, PoolConn cancelable, Cancel 0]
       (getPool [''a'' \<mapsto> JStr ''b''] 1))) 0) = Rejected ContextCanceled"
  "p_pool (pool (run [PoolConn background, PoolConn cancelable, Cancel 0, ConnClose 0]
       (getPool [''a'' \<mapsto> JStr ''b''] 1))) = [0]"
  "reqQueue (pool (run [PoolConn background, PoolConn cancelable, Cancel 0, ConnClose 0]
       (getPool [''a'' \<mapsto> JStr ''b''] 1))) = []"
  by (simp_all add: cancelable_def pool_eval)

section \<open>The close of a key-value connection never waits\<close>

text \<open>
  In every state the key-value pool can reach no connection has \<open>#txn\<close> set, so
  \<open>close()\<close> of an open active connection returns it at once, whatever transactions
  were begun on it.
\<close>

lemma kv_conn_close_never_waits:
  assumes "p = pool (run acts (getPool st n))" and "\<not> closed (conns p c)"
    and "c \<in> set (active p)"
  shows "fst (MemKvConn_close c p) = Inr ResolvedNow"
proof -
  let ?p1 = "upd_conn c (\<lambda>x. x\<lparr>closed := True\<rparr>) p"
  have inv: "pool_inv p"
    using assms(1) by (simp add: reachable_inv)
  then have nt: "txn (conns ?p1 c) = None"
    by (simp add: pool_inv_def upd_conn_def)
  obtain ix where ix: "indexOf (active ?p1) c = Some ix"
    using assms(3) indexOf_None [of "active p" c] by (auto simp: upd_conn_def)
  have "fst (MemKvPool_return c ?p1) = Inr ()"
    using return_grants_aux [OF refl ix nt] by simp
  then obtain p2 where "MemKvPool_return c ?p1 = (Inr (), p2)"
    by (cases "MemKvPool_return c ?p1") auto
  then show ?thesis
    using assms(2) nt
    by (subst MemKvConn_close.simps) (simp add: Let_def)
qed

end
